theory Spec2Isabelle
  imports Complex_Main "HOL-Library.Multiset"
begin

section \<open>loom-dl.js: data model\<close>

text \<open>
  A JavaScript string is modelled as a \<^typ>\<open>string\<close>, one \<^typ>\<open>char\<close> per code unit
  (code units below 256). Errors that the source throws or rejects with are values of
  a sum type, \<open>Inl\<close> carrying the error.
\<close>

datatype error =
  TypeError
  | NoVideoUrlError
  | Failure string

subsection \<open>String helpers of the JavaScript runtime\<close>

text \<open>\<^verbatim>\<open>String.prototype.split\<close> with a one-character separator.\<close>

fun js_split :: "char \<Rightarrow> string \<Rightarrow> string list" where
  "js_split sep [] = [[]]"
| "js_split sep (c # cs) =
     (if c = sep then [] # js_split sep cs
      else (case js_split sep cs of
              [] \<Rightarrow> [[c]]
            | x # xs \<Rightarrow> (c # x) # xs))"

text \<open>\<^verbatim>\<open>Array.prototype.pop\<close>: the last element, \<open>None\<close> (undefined) on an empty array.\<close>

definition pop :: "'a list \<Rightarrow> 'a option" where
  "pop xs = (if xs = [] then None else Some (last xs))"

subsection \<open>extractId\<close>

text \<open>
  \<^verbatim>\<open>
  const extractId = (url) => {
    url = url.split('?')[0];
    return url.split('/').pop();
  };
  \<close>
  Index \<open>[0]\<close> of an empty array is undefined, on which \<^verbatim>\<open>.split\<close> throws a TypeError.
\<close>

definition extractId :: "string \<Rightarrow> error + string option" where
  "extractId url =
     (case js_split CHR ''?'' url of
        [] \<Rightarrow> Inl TypeError
      | url' # _ \<Rightarrow> Inr (pop (js_split CHR ''/'' url')))"

subsection \<open>backoff\<close>

text \<open>
  The observable events of a retried operation: one call of the attempt function, and one
  timer \<^verbatim>\<open>setTimeout(resolve, delay)\<close> that has elapsed.
\<close>

datatype event = Attempt | Sleep int

text \<open>
  \<^verbatim>\<open>
  const backoff = (retries, fn, delay = 1000) =>
    fn().catch(err => retries > 1 && delay <= 32000
      ? new Promise(resolve => setTimeout(resolve, delay))
          .then(() => backoff(retries - 1, fn, delay * 2))
      : Promise.reject(err));
  \<close>
  The attempt \<open>fn\<close> returns a promise; it is a function of the state \<open>'s\<close> of its
  environment, giving the settled result (\<open>Inl\<close> a rejection) and the next state. The
  call threads that state and the list of events so far.
\<close>

function backoff ::
  "int \<Rightarrow> ('s \<Rightarrow> ('e + 'a) \<times> 's) \<Rightarrow> int \<Rightarrow> 's \<times> event list
     \<Rightarrow> ('e + 'a) \<times> 's \<times> event list" where
  "backoff retries fn delay (s, tr) =
     (case fn s of
        (Inr v, s') \<Rightarrow> (Inr v, s', tr @ [Attempt])
      | (Inl err, s') \<Rightarrow>
          if retries > 1 \<and> delay \<le> 32000
          then backoff (retries - 1) fn (delay * 2) (s', tr @ [Attempt, Sleep delay])
          else (Inl err, s', tr @ [Attempt]))"
  by pat_completeness auto
termination
  by (relation "measure (\<lambda>(retries, fn, delay, w). nat retries)") auto

declare backoff.simps [simp del]

text \<open>A call without the third argument takes the default \<^verbatim>\<open>delay = 1000\<close>.\<close>

definition backoff_default ::
  "int \<Rightarrow> ('s \<Rightarrow> ('e + 'a) \<times> 's) \<Rightarrow> 's \<times> event list \<Rightarrow> ('e + 'a) \<times> 's \<times> event list" where
  "backoff_default retries fn = backoff retries fn 1000"

text \<open>Reading a trace: the state after \<open>k\<close> calls of the attempt, the number of attempts,
  the delays waited.\<close>

definition after :: "('s \<Rightarrow> ('e + 'a) \<times> 's) \<Rightarrow> nat \<Rightarrow> 's \<Rightarrow> 's" where
  "after fn k s = ((\<lambda>s. snd (fn s)) ^^ k) s"

definition attempts :: "event list \<Rightarrow> nat" where
  "attempts tr = length (filter (\<lambda>e. e = Attempt) tr)"

definition sleeps :: "event list \<Rightarrow> int list" where
  "sleeps tr = concat (map (\<lambda>e. case e of Sleep d \<Rightarrow> [d] | Attempt \<Rightarrow> []) tr)"

subsection \<open>Regular expressions of the source\<close>

text \<open>
  The five regular expressions of \<^verbatim>\<open>fetchLoomDownloadUrl\<close> are sequences of character
  classes, each taken once or under \<^verbatim>\<open>*\<close>, \<^verbatim>\<open>+\<close> or the lazy \<^verbatim>\<open>*?\<close>, around one
  capture group. They are kept as data and run by a backtracking matcher with the
  priorities of the JavaScript engine: a greedy quantifier tries the longest repetition
  first, a lazy one the shortest, and the search takes the leftmost start.
\<close>

definition dq :: char where "dq = CHR 0x22"
definition sq :: char where "sq = CHR 0x27"
definition bsl :: char where "bsl = CHR 0x5C"

text \<open>\<^verbatim>\<open>\s\<close> on code units below 256: tab, line feed, vertical tab, form feed, carriage
  return, space, no-break space.\<close>

definition is_space :: "char \<Rightarrow> bool" where
  "is_space c = (c \<in> set [CHR 0x09, CHR 0x0A, CHR 0x0B, CHR 0x0C, CHR 0x0D, CHR 0x20, CHR 0xA0])"

text \<open>Case folding of the \<^verbatim>\<open>i\<close> flag: two code units match when their upper-case forms
  agree; a code unit outside ASCII never folds onto an ASCII one.\<close>

definition upper_table :: "(char \<times> char) list" where
  "upper_table = zip ''abcdefghijklmnopqrstuvwxyz'' ''ABCDEFGHIJKLMNOPQRSTUVWXYZ''"

definition toUpperCase :: "char \<Rightarrow> char" where
  "toUpperCase c = (case map_of upper_table c of Some u \<Rightarrow> u | None \<Rightarrow> c)"

datatype cset = Lit char | LitI char | Space | Any | Neg "cset list"

fun cmatch :: "cset \<Rightarrow> char \<Rightarrow> bool" where
  "cmatch (Lit a) c = (c = a)"
| "cmatch (LitI a) c = (toUpperCase c = toUpperCase a)"
| "cmatch Space c = is_space c"
| "cmatch Any c = True"
| "cmatch (Neg cs) c = (\<not> list_ex (\<lambda>k. cmatch k c) cs)"

datatype quant = One | Star | Plus | LazyStar

datatype item = Atom cset quant | GroupOpen | GroupClose

type_synonym caps = "nat option \<times> nat option"

text \<open>
  \<open>rmatch re s pos caps\<close> matches \<open>re\<close> at the head of \<open>s\<close>, which starts at index
  \<open>pos\<close> of the subject; it gives the end index of the match and the bounds of group 1.
\<close>

fun rmatch :: "item list \<Rightarrow> string \<Rightarrow> nat \<Rightarrow> caps \<Rightarrow> (nat \<times> caps) option" where
  "rmatch [] s pos caps = Some (pos, caps)"
| "rmatch (GroupOpen # r) s pos caps = rmatch r s pos (Some pos, snd caps)"
| "rmatch (GroupClose # r) s pos caps = rmatch r s pos (fst caps, Some pos)"
| "rmatch (Atom c One # r) [] pos caps = None"
| "rmatch (Atom c One # r) (x # xs) pos caps =
     (if cmatch c x then rmatch r xs (Suc pos) caps else None)"
| "rmatch (Atom c Plus # r) [] pos caps = None"
| "rmatch (Atom c Plus # r) (x # xs) pos caps =
     (if cmatch c x then rmatch (Atom c Star # r) xs (Suc pos) caps else None)"
| "rmatch (Atom c Star # r) [] pos caps = rmatch r [] pos caps"
| "rmatch (Atom c Star # r) (x # xs) pos caps =
     (if cmatch c x
      then (case rmatch (Atom c Star # r) xs (Suc pos) caps of
              Some m \<Rightarrow> Some m
            | None \<Rightarrow> rmatch r (x # xs) pos caps)
      else rmatch r (x # xs) pos caps)"
| "rmatch (Atom c LazyStar # r) [] pos caps = rmatch r [] pos caps"
| "rmatch (Atom c LazyStar # r) (x # xs) pos caps =
     (case rmatch r (x # xs) pos caps of
        Some m \<Rightarrow> Some m
      | None \<Rightarrow>
          if cmatch c x then rmatch (Atom c LazyStar # r) xs (Suc pos) caps else None)"

text \<open>The leftmost start at or after index \<open>i\<close>: start, end and group bounds.\<close>

fun rsearch :: "item list \<Rightarrow> string \<Rightarrow> nat \<Rightarrow> (nat \<times> nat \<times> caps) option" where
  "rsearch re [] i =
     (case rmatch re [] i (None, None) of
        Some (e, caps) \<Rightarrow> Some (i, e, caps)
      | None \<Rightarrow> None)"
| "rsearch re (x # xs) i =
     (case rmatch re (x # xs) i (None, None) of
        Some (e, caps) \<Rightarrow> Some (i, e, caps)
      | None \<Rightarrow> rsearch re xs (Suc i))"

definition substr :: "string \<Rightarrow> nat \<Rightarrow> nat \<Rightarrow> string" where
  "substr s a b = take (b - a) (drop a s)"

text \<open>\<^verbatim>\<open>regex.exec(s)\<close> on a fresh regular expression: \<open>None\<close> is null, otherwise the
  matched text and group 1.\<close>

definition exec :: "item list \<Rightarrow> string \<Rightarrow> (string \<times> string option) option" where
  "exec re s =
     (case rsearch re s 0 of
        None \<Rightarrow> None
      | Some (i, e, caps) \<Rightarrow>
          Some (substr s i e,
                case caps of
                  (Some a, Some b) \<Rightarrow> Some (substr s a b)
                | _ \<Rightarrow> None))"

text \<open>
  \<^verbatim>\<open>s.match(regex)\<close> with the \<^verbatim>\<open>g\<close> flag: every match, left to right, the search
  resuming at the end of the previous match (one further after an empty match). The empty
  list stands for null.
\<close>

function match_all :: "item list \<Rightarrow> string \<Rightarrow> nat \<Rightarrow> string list" where
  "match_all re s lastIndex =
     (if length s < lastIndex then []
      else (case rsearch re (drop lastIndex s) lastIndex of
              None \<Rightarrow> []
            | Some (i, e, caps) \<Rightarrow>
                substr s i e # match_all re s (if e = i then Suc e else e)))"
  by pat_completeness auto
termination
proof (relation "measure (\<lambda>(re, s, lastIndex). Suc (length s) - lastIndex)", goal_cases)
  case 1
  show ?case by simp
next
  case (2 re s lastIndex m i r e caps)
  have rm: "rmatch re' s' p c = Some (e', c') \<Longrightarrow> p \<le> e'" for re' s' p c e' c'
    by (induction re' s' p c rule: rmatch.induct)
       (auto split: list.splits if_splits option.splits)
  have rs: "rsearch re' s' p = Some (i', e', c') \<Longrightarrow> p \<le> i' \<and> i' \<le> e'" for re' s' p i' e' c'
  proof (induction re' s' p rule: rsearch.induct)
    case (1 re i)
    then show ?case
      by (auto split: option.splits dest: rm)
  next
    case (2 re x xs i)
    then show ?case
      by (auto split: option.splits dest: rm)
  qed
  from 2 have "rsearch re (drop lastIndex s) lastIndex = Some (i, e, caps)" by simp
  from rs [OF this] 2(1) show ?case by auto
qed

declare match_all.simps [simp del]

definition lits :: "string \<Rightarrow> item list" where
  "lits s = map (\<lambda>c. Atom (Lit c) One) s"

definition litsI :: "string \<Rightarrow> item list" where
  "litsI s = map (\<lambda>c. Atom (LitI c) One) s"

definition quoted :: "string \<Rightarrow> string" where
  "quoted s = dq # s @ [dq]"

text \<open>\<^verbatim>\<open>/window\.__APOLLO_STATE__\s*=\s*({.*?});/s\<close>\<close>

definition apolloStateRegex :: "item list" where
  "apolloStateRegex =
     lits ''window.__APOLLO_STATE__'' @ [Atom Space Star] @ lits ''='' @ [Atom Space Star, GroupOpen]
     @ lits ''{'' @ [Atom Any LazyStar] @ lits ''}'' @ [GroupClose] @ lits '';''"

text \<open>\<^verbatim>\<open>/https:\/\/[^"'\s]+\.mp4[^"'\s]*/g\<close>\<close>

definition mp4Regex :: "item list" where
  "mp4Regex =
     lits ''https://'' @ [Atom (Neg [Lit dq, Lit sq, Space]) Plus] @ lits ''.mp4''
     @ [Atom (Neg [Lit dq, Lit sq, Space]) Star]"

text \<open>\<^verbatim>\<open>/"videoUrl":\s*"([^"]+)"/g\<close>\<close>

definition scriptRegex :: "item list" where
  "scriptRegex =
     lits (quoted ''videoUrl'' @ '':'') @ [Atom Space Star] @ lits [dq]
     @ [GroupOpen, Atom (Neg [Lit dq]) Plus, GroupClose] @ lits [dq]"

text \<open>\<^verbatim>\<open>/"downloadUrl":\s*"([^"]+)"/g\<close>\<close>

definition downloadRegex :: "item list" where
  "downloadRegex =
     lits (quoted ''downloadUrl'' @ '':'') @ [Atom Space Star] @ lits [dq]
     @ [GroupOpen, Atom (Neg [Lit dq]) Plus, GroupClose] @ lits [dq]"

text \<open>\<^verbatim>\<open>/"[^"]*video[^"]*":\s*"(https:\/\/[^"]+)"/gi\<close>\<close>

definition videoRegex :: "item list" where
  "videoRegex =
     litsI [dq] @ [Atom (Neg [LitI dq]) Star] @ litsI ''video'' @ [Atom (Neg [LitI dq]) Star]
     @ litsI (dq # '':'') @ [Atom Space Star] @ litsI [dq]
     @ [GroupOpen] @ litsI ''https://'' @ [Atom (Neg [LitI dq]) Plus, GroupClose] @ litsI [dq]"

text \<open>\<^verbatim>\<open>s.replace(/\\u002F/g, '/')\<close>: every occurrence of a literal pattern, left to
  right.\<close>

function replace_all :: "string \<Rightarrow> string \<Rightarrow> string \<Rightarrow> string" where
  "replace_all pat rep [] = []"
| "replace_all pat rep (c # cs) =
     (if pat \<noteq> [] \<and> take (length pat) (c # cs) = pat
      then rep @ replace_all pat rep (drop (length pat) (c # cs))
      else c # replace_all pat rep cs)"
  by pat_completeness auto
termination
  by (relation "measure (\<lambda>(pat, rep, s). length s)") auto

definition unescape_slashes :: "string \<Rightarrow> string" where
  "unescape_slashes s = replace_all (bsl # ''u002F'') ''/'' s"

definition startsWith :: "string \<Rightarrow> string \<Rightarrow> bool" where
  "startsWith s p = (take (length p) s = p)"

subsection \<open>JavaScript values\<close>

text \<open>
  The values that \<^verbatim>\<open>JSON.parse\<close> and property access produce. An object is the list of
  its own properties in the order \<^verbatim>\<open>for ... in\<close> enumerates them, with distinct keys.
\<close>

datatype jsval =
  Undefined
  | Null
  | Bool bool
  | Num rat
  | Str string
  | Arr "jsval list"
  | Obj "(string \<times> jsval) list"

fun truthy :: "jsval \<Rightarrow> bool" where
  "truthy Undefined = False"
| "truthy Null = False"
| "truthy (Bool b) = b"
| "truthy (Num n) = (n \<noteq> 0)"
| "truthy (Str s) = (s \<noteq> [])"
| "truthy (Arr xs) = True"
| "truthy (Obj kvs) = True"

text \<open>
  \<open>v[k]\<close> for the property names the source reads (\<^verbatim>\<open>url\<close> and the two
  \<^verbatim>\<open>nullableRawCdnUrl(...)\<close> keys), none of which a string, number, boolean or array has.
  The source reads a property only of a value it has tested to be truthy, so the access
  never throws.
\<close>

fun get_prop :: "jsval \<Rightarrow> string \<Rightarrow> jsval" where
  "get_prop (Obj kvs) k = (case map_of kvs k of Some v \<Rightarrow> v | None \<Rightarrow> Undefined)"
| "get_prop v k = Undefined"

text \<open>The entries \<^verbatim>\<open>for (const key in v)\<close> visits; the keys of a string or an array are
  indices, which the loop below skips, and are left out.\<close>

fun for_in :: "jsval \<Rightarrow> (string \<times> jsval) list" where
  "for_in (Obj kvs) = kvs"
| "for_in v = []"

subsection \<open>fetchLoomDownloadUrl\<close>

text \<open>The keys \<^verbatim>\<open>'nullableRawCdnUrl({"acceptableMimes":["M3U8"]})'\<close> and
  \<^verbatim>\<open>'nullableRawCdnUrl({"acceptableMimes":["DASH"]})'\<close>.\<close>

definition M3U8_key :: string where
  "M3U8_key = ''nullableRawCdnUrl({'' @ quoted ''acceptableMimes'' @ '':['' @ quoted ''M3U8'' @ '']})''"

definition DASH_key :: string where
  "DASH_key = ''nullableRawCdnUrl({'' @ quoted ''acceptableMimes'' @ '':['' @ quoted ''DASH'' @ '']})''"

text \<open>
  The loop over the Apollo state, \<open>videoUrl\<close> being the variable of that name:
  \<^verbatim>\<open>
  for (const key in apolloState) {
    if (key.startsWith('RegularUserVideo:') && apolloState[key]) {
      const videoData = apolloState[key];
      if (videoData[M3U8]) {
        const m3u8Data = videoData[M3U8];
        if (m3u8Data && m3u8Data.url) { videoUrl = m3u8Data.url; break; }
      }
      if (!videoUrl && videoData[DASH]) {
        const dashData = videoData[DASH];
        if (dashData && dashData.url) { videoUrl = dashData.url; break; }
      }
    }
  }
  \<close>
\<close>

fun scan_apollo :: "(string \<times> jsval) list \<Rightarrow> jsval \<Rightarrow> jsval" where
  "scan_apollo [] videoUrl = videoUrl"
| "scan_apollo ((key, videoData) # rest) videoUrl =
     (if startsWith key ''RegularUserVideo:'' \<and> truthy videoData
      then (let m3u8Data = get_prop videoData M3U8_key in
            if truthy m3u8Data \<and> truthy (get_prop m3u8Data ''url'')
            then get_prop m3u8Data ''url''
            else (let dashData = get_prop videoData DASH_key in
                  if \<not> truthy videoUrl \<and> truthy dashData \<and> truthy (get_prop dashData ''url'')
                  then get_prop dashData ''url''
                  else scan_apollo rest videoUrl))
      else scan_apollo rest videoUrl)"

text \<open>
  Method 1. \<^verbatim>\<open>JSON.parse\<close> is a parameter: \<open>None\<close> is the SyntaxError it throws, which
  the source catches and logs, leaving \<open>videoUrl\<close> null.
\<close>

definition method1 :: "(string \<Rightarrow> jsval option) \<Rightarrow> string \<Rightarrow> jsval" where
  "method1 JSON_parse html =
     (case exec apolloStateRegex html of
        Some (m, Some blob) \<Rightarrow>
          if blob \<noteq> []
          then (case JSON_parse blob of
                  None \<Rightarrow> Null
                | Some apolloState \<Rightarrow> scan_apollo (for_in apolloState) Null)
          else Null
      | _ \<Rightarrow> Null)"

text \<open>Method 2: \<^verbatim>\<open>mp4Matches.reduce((longest, current) =>
  current.length > longest.length ? current : longest)\<close>.\<close>

definition longer :: "string \<Rightarrow> string \<Rightarrow> string" where
  "longer longest current = (if length current > length longest then current else longest)"

definition method2 :: "string \<Rightarrow> string option" where
  "method2 html =
     (case match_all mp4Regex html 0 of
        [] \<Rightarrow> None
      | m # ms \<Rightarrow> Some (foldl longer m ms))"

text \<open>Methods 3 to 5: \<^verbatim>\<open>m = regex.exec(html); if (m && m[1]) videoUrl =
  m[1].replace(/\\u002F/g, '/')\<close>.\<close>

definition field_value :: "item list \<Rightarrow> string \<Rightarrow> string option" where
  "field_value re html =
     (case exec re html of
        Some (m, Some g) \<Rightarrow> if g \<noteq> [] then Some (unescape_slashes g) else None
      | _ \<Rightarrow> None)"

text \<open>The cascade of the five methods (source lines 95 to 174), each under
  \<^verbatim>\<open>if (!videoUrl)\<close>.\<close>

definition extractVideoUrl :: "(string \<Rightarrow> jsval option) \<Rightarrow> string \<Rightarrow> jsval" where
  "extractVideoUrl JSON_parse html =
     (let videoUrl = method1 JSON_parse html;
          videoUrl = (if \<not> truthy videoUrl
                      then (case method2 html of Some u \<Rightarrow> Str u | None \<Rightarrow> videoUrl)
                      else videoUrl);
          videoUrl = (if \<not> truthy videoUrl
                      then (case field_value scriptRegex html of Some u \<Rightarrow> Str u | None \<Rightarrow> videoUrl)
                      else videoUrl);
          videoUrl = (if \<not> truthy videoUrl
                      then (case field_value downloadRegex html of Some u \<Rightarrow> Str u | None \<Rightarrow> videoUrl)
                      else videoUrl);
          videoUrl = (if \<not> truthy videoUrl
                      then (case field_value videoRegex html of Some u \<Rightarrow> Str u | None \<Rightarrow> videoUrl)
                      else videoUrl)
      in videoUrl)"

text \<open>
  What the outside world answers: the GET of the share page (the body, or the error
  thrown), the write of the debug copy of the page, \<^verbatim>\<open>JSON.parse\<close>, and the POST
  to the old API (the response data, or the error thrown).
\<close>

record env =
  GET :: "string \<Rightarrow> error + string"
  writeFile :: "string \<Rightarrow> error option"
  JSON_parse :: "string \<Rightarrow> jsval option"
  POST :: "string \<Rightarrow> error + jsval"

text \<open>
  The whole function. An error of the GET or of the write is rethrown by the outer
  \<^verbatim>\<open>catch\<close>; one of the old API is caught and logged; with no URL at the end the
  function throws \<^verbatim>\<open>new Error('No video download URL found. ...')\<close>.
\<close>

definition fetchLoomDownloadUrl :: "'z env_scheme \<Rightarrow> string \<Rightarrow> error + jsval" where
  "fetchLoomDownloadUrl E ident =
     (case GET E (''https://www.loom.com/share/'' @ ident) of
        Inl err \<Rightarrow> Inl err
      | Inr html \<Rightarrow>
          (case writeFile E html of
             Some err \<Rightarrow> Inl err
           | None \<Rightarrow>
               (let videoUrl = extractVideoUrl (JSON_parse E) html;
                    videoUrl =
                      (if \<not> truthy videoUrl
                       then (case POST E (''https://www.loom.com/api/campaigns/sessions/'' @ ident
                                           @ ''/transcoded-url'') of
                               Inl apiError \<Rightarrow> videoUrl
                             | Inr data \<Rightarrow>
                                 if truthy data \<and> truthy (get_prop data ''url'')
                                 then get_prop data ''url'' else videoUrl)
                       else videoUrl)
                in if \<not> truthy videoUrl then Inl NoVideoUrlError else Inr videoUrl)))"

text \<open>Reading the Apollo state: a video record, and the usable URL a record has under a key.\<close>

definition video_record :: "string \<times> jsval \<Rightarrow> bool" where
  "video_record kv = (startsWith (fst kv) ''RegularUserVideo:'' \<and> truthy (snd kv))"

definition cdn_url :: "jsval \<Rightarrow> string \<Rightarrow> jsval option" where
  "cdn_url videoData key =
     (let d = get_prop videoData key
      in if truthy d \<and> truthy (get_prop d ''url'') then Some (get_prop d ''url'') else None)"

text \<open>
  Reading a page: a link is \<^verbatim>\<open>https://\<close>, one or more characters other than quotes and
  white space, \<^verbatim>\<open>.mp4\<close>, and any further such characters; a page has a link when
  \<^verbatim>\<open>https://\<close>, one or more such characters and \<^verbatim>\<open>.mp4\<close> occur in it, whatever
  comes next.
\<close>

definition link_char :: "char \<Rightarrow> bool" where
  "link_char c = (c \<noteq> dq \<and> c \<noteq> sq \<and> \<not> is_space c)"

definition is_mp4_link :: "string \<Rightarrow> bool" where
  "is_mp4_link u =
     (\<exists>a b. u = ''https://'' @ a @ ''.mp4'' @ b \<and> a \<noteq> [] \<and> list_all link_char (a @ b))"

definition has_mp4_link :: "string \<Rightarrow> bool" where
  "has_mp4_link html =
     (\<exists>pre a post. html = pre @ ''https://'' @ a @ ''.mp4'' @ post \<and> a \<noteq> []
        \<and> list_all link_char a)"

text \<open>
  A text occurs in a page when the page is some text, then it, then some text. The words
  of the specification for a link, a text \<^emph>\<open>ending in\<close> the extension, are read with
  \<open>ends_with\<close>.
\<close>

definition occurs_in :: "string \<Rightarrow> string \<Rightarrow> bool" where
  "occurs_in v html = (\<exists>pre post. html = pre @ v @ post)"

definition ends_with :: "string \<Rightarrow> string \<Rightarrow> bool" where
  "ends_with s suffix =
     (length suffix \<le> length s \<and> drop (length s - length suffix) s = suffix)"

subsection \<open>Example pages\<close>

text \<open>The JSON text of a string.\<close>

definition json_string :: "string \<Rightarrow> string" where
  "json_string s = quoted (concat (map (\<lambda>c. if c = dq \<or> c = bsl then [bsl, c] else [c]) s))"

text \<open>A page whose state has a DASH-only video record before a record with an M3U8 URL,
  and the value \<^verbatim>\<open>JSON.parse\<close> gives for its blob.\<close>

definition dash_first_blob :: string where
  "dash_first_blob =
     ''{'' @ json_string ''RegularUserVideo:1'' @ '':{'' @ json_string DASH_key @ '':{''
       @ json_string ''url'' @ '':'' @ json_string ''https://cdn/v.mpd'' @ ''}},''
     @ json_string ''RegularUserVideo:2'' @ '':{'' @ json_string M3U8_key @ '':{''
       @ json_string ''url'' @ '':'' @ json_string ''https://cdn/v.m3u8'' @ ''}}}''"

definition dash_first_state :: jsval where
  "dash_first_state =
     Obj [(''RegularUserVideo:1'', Obj [(DASH_key, Obj [(''url'', Str ''https://cdn/v.mpd'')])]),
          (''RegularUserVideo:2'', Obj [(M3U8_key, Obj [(''url'', Str ''https://cdn/v.m3u8'')])])]"

definition dash_first_parse :: "string \<Rightarrow> jsval option" where
  "dash_first_parse text = (if text = dash_first_blob then Some dash_first_state else None)"

definition dash_first_page :: string where
  "dash_first_page = ''<script>window.__APOLLO_STATE__ = '' @ dash_first_blob @ '';</script>''"

text \<open>A page whose only video record has both URLs, the DASH one first.\<close>

definition both_blob :: string where
  "both_blob =
     ''{'' @ json_string ''ROOT_QUERY'' @ '':{},''
     @ json_string ''RegularUserVideo:7'' @ '':{'' @ json_string DASH_key @ '':{''
       @ json_string ''url'' @ '':'' @ json_string ''https://cdn/v.mpd'' @ ''},''
       @ json_string M3U8_key @ '':{''
       @ json_string ''url'' @ '':'' @ json_string ''https://cdn/v.m3u8'' @ ''}}}''"

definition both_record :: jsval where
  "both_record = Obj [(DASH_key, Obj [(''url'', Str ''https://cdn/v.mpd'')]),
                      (M3U8_key, Obj [(''url'', Str ''https://cdn/v.m3u8'')])]"

definition both_parse :: "string \<Rightarrow> jsval option" where
  "both_parse text =
     (if text = both_blob
      then Some (Obj ([(''ROOT_QUERY'', Obj [])] @ (''RegularUserVideo:7'', both_record) # []))
      else None)"

definition both_page :: string where
  "both_page = ''<script>window.__APOLLO_STATE__ = '' @ both_blob @ '';</script>''"

text \<open>
  A page whose state is valid JSON with \<^verbatim>\<open>};\<close> inside a string, before the M3U8 URL
  of its only video record: the state, the text up to the first \<^verbatim>\<open>}\<close> that a
  \<^verbatim>\<open>;\<close> follows, and a \<^verbatim>\<open>JSON.parse\<close> that throws on anything but the whole state.
\<close>

definition semi_blob :: string where
  "semi_blob =
     ''{'' @ json_string ''RegularUserVideo:1'' @ '':{'' @ json_string ''name'' @ '':''
       @ json_string ''a};b'' @ '','' @ json_string M3U8_key @ '':{''
       @ json_string ''url'' @ '':'' @ json_string ''https://cdn/v.m3u8'' @ ''}}}''"

definition semi_cut :: string where
  "semi_cut = ''{'' @ json_string ''RegularUserVideo:1'' @ '':{'' @ json_string ''name'' @ '':''
       @ [dq] @ ''a}''"

definition semi_state :: jsval where
  "semi_state =
     Obj [(''RegularUserVideo:1'',
           Obj [(''name'', Str ''a};b''), (M3U8_key, Obj [(''url'', Str ''https://cdn/v.m3u8'')])])]"

definition semi_parse :: "string \<Rightarrow> jsval option" where
  "semi_parse text = (if text = semi_blob then Some semi_state else None)"

definition semi_page :: string where
  "semi_page = ''<script>window.__APOLLO_STATE__ = '' @ semi_blob @ '';</script>''"

text \<open>A page with two direct links and no state; a page with one link inside a paragraph;
  a page with nothing to find; and three worlds serving them, the old API failing in the
  first two and answering in the third.\<close>

definition links_page :: string where
  "links_page = ''<a href='' @ quoted ''https://x/a.mp4'' @ ''> <a href=''
     @ quoted ''https://x/bb.mp4?q=1'' @ ''>''"

definition para_page :: string where
  "para_page = ''<p>https://x/a.mp4</p>''"

definition plain_page :: string where
  "plain_page = ''<html><body>private</body></html>''"

definition links_env :: env where
  "links_env = \<lparr>GET = (\<lambda>url. Inr links_page), writeFile = (\<lambda>data. None),
                 JSON_parse = (\<lambda>text. None), POST = (\<lambda>url. Inl (Failure ''404''))\<rparr>"

definition offline_env :: env where
  "offline_env = \<lparr>GET = (\<lambda>url. Inr plain_page), writeFile = (\<lambda>data. None),
                   JSON_parse = (\<lambda>text. None), POST = (\<lambda>url. Inl (Failure ''404''))\<rparr>"

definition old_api_env :: env where
  "old_api_env = \<lparr>GET = (\<lambda>url. Inr plain_page), writeFile = (\<lambda>data. None),
                   JSON_parse = (\<lambda>text. None),
                   POST = (\<lambda>url. Inr (Obj [(''url'', Str ''https://cdn/old.mp4'')]))\<rparr>"

subsection \<open>Command line\<close>

text \<open>
  The options of the command line (\<^verbatim>\<open>yargs\<close>): \<^verbatim>\<open>--url\<close>, \<^verbatim>\<open>--list\<close>,
  \<^verbatim>\<open>--prefix\<close>, \<^verbatim>\<open>--out\<close>, \<^verbatim>\<open>--timeout\<close>; \<open>None\<close> is an option not given.
\<close>

record argv =
  argv_url :: "string option"
  argv_list :: "string option"
  argv_prefix :: "string option"
  argv_out :: "string option"
  argv_timeout :: "int option"

definition given :: "string option \<Rightarrow> bool" where
  "given opt = (case opt of None \<Rightarrow> False | Some s \<Rightarrow> s \<noteq> [])"

text \<open>
  \<^verbatim>\<open>
  .check((argv) => {
    if (!argv.url && !argv.list) throw new Error('Please provide either ...');
    if (argv.url && argv.list) throw new Error('Please provide either --url or --list, not both');
    if (argv.timeout && argv.timeout < 0) throw new Error('Please provide a non-negative ...');
    return true;
  })
  \<close>
\<close>

definition check :: "argv \<Rightarrow> error + unit" where
  "check a =
     (if \<not> given (argv_url a) \<and> \<not> given (argv_list a)
      then Inl (Failure ''Please provide either a single video URL with --url or a list of URLs with --list to proceed'')
      else if given (argv_url a) \<and> given (argv_list a)
      then Inl (Failure ''Please provide either --url or --list, not both'')
      else if (case argv_timeout a of None \<Rightarrow> False | Some t \<Rightarrow> t \<noteq> 0 \<and> t < 0)
      then Inl (Failure ''Please provide a non-negative number for --timeout'')
      else Inr ())"

subsection \<open>The log of downloaded URLs\<close>

text \<open>\<^verbatim>\<open>s.split(/\r?\n/)\<close>\<close>

fun split_lines :: "string \<Rightarrow> string list" where
  "split_lines [] = [[]]"
| "split_lines [c] = (if c = CHR 0x0A then [[], []] else [[c]])"
| "split_lines (c # d # ds) =
     (if c = CHR 0x0D \<and> d = CHR 0x0A then [] # split_lines ds
      else if c = CHR 0x0A then [] # split_lines (d # ds)
      else (case split_lines (d # ds) of
              [] \<Rightarrow> [[c]]
            | x # xs \<Rightarrow> (c # x) # xs))"

text \<open>\<^verbatim>\<open>s.trim()\<close>\<close>

definition trim :: "string \<Rightarrow> string" where
  "trim s = rev (dropWhile is_space (rev (dropWhile is_space s)))"

text \<open>
  The state the batch works on: the text of \<^verbatim>\<open>downloaded.log\<close> (\<open>None\<close> while the file
  does not exist) and the events so far.
\<close>

record world =
  log_file :: "string option"
  trace :: "event list"

definition log_text :: "world \<Rightarrow> string" where
  "log_text w = (case log_file w of None \<Rightarrow> [] | Some text \<Rightarrow> text)"

text \<open>
  \<^verbatim>\<open>
  const readDownloadedLog = async () => {
    try {
      const data = await fsPromises.readFile(path.join(__dirname, 'downloaded.log'), 'utf8');
      return new Set(data.split(/\r?\n/));
    } catch (error) {
      return new Set(); // If file doesn't exist, return an empty set
    }
  };
  \<close>
\<close>

definition readDownloadedLog :: "world \<Rightarrow> string set" where
  "readDownloadedLog w =
     (case log_file w of
        None \<Rightarrow> {}
      | Some data \<Rightarrow> set (split_lines data))"

text \<open>
  The world of a batch adds to that of \<^verbatim>\<open>fetchLoomDownloadUrl\<close>: the outcome of the
  \<open>k\<close>-th call of \<^verbatim>\<open>downloadLoomVideo(url, outputPath)\<close> (its body drives external
  tools; \<open>Inl\<close> is the error it rejects with), whether appending a text to the log fails,
  and the functions of \<^verbatim>\<open>path\<close> with the directory of the script.
\<close>

record denv = env +
  downloadLoomVideo :: "jsval \<Rightarrow> string \<Rightarrow> nat \<Rightarrow> error + unit"
  appendFile :: "string \<Rightarrow> error option"
  path_join :: "string \<Rightarrow> string \<Rightarrow> string"
  path_resolve :: "string \<Rightarrow> string"
  dirname :: string

text \<open>
  \<^verbatim>\<open>
  const appendToLogFile = async (id) => {
    await fsPromises.appendFile(path.join(__dirname, 'downloaded.log'), `${id}\n`);
  };
  \<close>
\<close>

definition appendToLogFile :: "'z denv_scheme \<Rightarrow> string \<Rightarrow> world \<Rightarrow> error + world" where
  "appendToLogFile E ident w =
     (case appendFile E (ident @ [CHR 0x0A]) of
        Some err \<Rightarrow> Inl err
      | None \<Rightarrow> Inr (w\<lparr>log_file := Some (log_text w @ ident @ [CHR 0x0A])\<rparr>))"

text \<open>\<^verbatim>\<open>const delay = (duration) => new Promise(resolve => setTimeout(resolve, duration));\<close>\<close>

definition delay :: "int \<Rightarrow> world \<Rightarrow> world" where
  "delay duration w = w\<lparr>trace := trace w @ [Sleep duration]\<rparr>"

subsection \<open>downloadTask\<close>

text \<open>\<^verbatim>\<open>xs.indexOf(x)\<close>, and a number in a template literal.\<close>

fun indexOf :: "'a list \<Rightarrow> 'a \<Rightarrow> int" where
  "indexOf [] x = - 1"
| "indexOf (y # ys) x = (if y = x then 0 else (let i = indexOf ys x in if i < 0 then i else i + 1))"

fun show_nat :: "nat \<Rightarrow> string" where
  "show_nat n = (if n < 10 then [''0123456789'' ! n] else show_nat (n div 10) @ [''0123456789'' ! (n mod 10)])"

declare show_nat.simps [simp del]

definition show_int :: "int \<Rightarrow> string" where
  "show_int i = (if i < 0 then ''-'' @ show_nat (nat (- i)) else show_nat (nat i))"

text \<open>
  \<^verbatim>\<open>
  const downloadTask = async (url) => {
    const id = extractId(url);
    try {
      const downloadUrl = await fetchLoomDownloadUrl(id);
      let filename = argv.prefix ? `${argv.prefix}-${urls.indexOf(url) + 1}-${id}.mp4` : `${id}.mp4`;
      let outputPath = path.join(outputDirectory, filename);
      await backoff(5, () => downloadLoomVideo(downloadUrl, outputPath));
      await appendToLogFile(url);
      await delay(5000); // 5-second delay
    } catch (error) {
      console.error(`Failed to download video ${id}: ${error.message}`);
    }
  };
  \<close>
  The result is how the promise of the task settles: \<open>Inl\<close> a rejection. The attempts of
  one task are numbered from 0.
\<close>

definition id_text :: "string option \<Rightarrow> string" where
  "id_text popped = (case popped of None \<Rightarrow> ''undefined'' | Some s \<Rightarrow> s)"

definition task_output_path ::
  "'z denv_scheme \<Rightarrow> argv \<Rightarrow> string list \<Rightarrow> string \<Rightarrow> string \<Rightarrow> string \<Rightarrow> string" where
  "task_output_path E a urls outputDirectory url ident =
     (let filename =
            (case argv_prefix a of
               None \<Rightarrow> ident @ ''.mp4''
             | Some prefix \<Rightarrow>
                 if prefix \<noteq> []
                 then prefix @ ''-'' @ show_int (indexOf urls url + 1) @ ''-'' @ ident @ ''.mp4''
                 else ident @ ''.mp4'')
      in path_join E outputDirectory filename)"

definition attempt :: "'z denv_scheme \<Rightarrow> jsval \<Rightarrow> string \<Rightarrow> nat \<Rightarrow> (error + unit) \<times> nat" where
  "attempt E downloadUrl outputPath k = (downloadLoomVideo E downloadUrl outputPath k, Suc k)"

definition downloadTask ::
  "'z denv_scheme \<Rightarrow> argv \<Rightarrow> string list \<Rightarrow> string \<Rightarrow> string \<Rightarrow> world \<Rightarrow> (error + unit) \<times> world" where
  "downloadTask E a urls outputDirectory url w =
     (case extractId url of
        Inl err \<Rightarrow> (Inl err, w)
      | Inr popped \<Rightarrow>
          (case fetchLoomDownloadUrl E (id_text popped) of
             Inl err \<Rightarrow> (Inr (), w)
           | Inr downloadUrl \<Rightarrow>
               (let outputPath = task_output_path E a urls outputDirectory url (id_text popped)
                in case backoff_default 5 (attempt E downloadUrl outputPath) (0, trace w) of
                     (Inl err, k, tr) \<Rightarrow> (Inr (), w\<lparr>trace := tr\<rparr>)
                   | (Inr done, k, tr) \<Rightarrow>
                       (case appendToLogFile E url (w\<lparr>trace := tr\<rparr>) of
                          Inl err \<Rightarrow> (Inr (), w\<lparr>trace := tr\<rparr>)
                        | Inr w' \<Rightarrow> (Inr (), delay 5000 w')))))"

text \<open>
  The download of a task succeeds when the URL is found and one of the attempts of
  \<^verbatim>\<open>backoff(5, ...)\<close> fulfils; the task succeeds when, further, the append to the log
  does not fail.
\<close>

definition download_succeeds ::
  "'z denv_scheme \<Rightarrow> argv \<Rightarrow> string list \<Rightarrow> string \<Rightarrow> string \<Rightarrow> bool" where
  "download_succeeds E a urls outputDirectory url =
     (case extractId url of
        Inl err \<Rightarrow> False
      | Inr popped \<Rightarrow>
          (case fetchLoomDownloadUrl E (id_text popped) of
             Inl err \<Rightarrow> False
           | Inr downloadUrl \<Rightarrow>
               (case fst (backoff_default 5
                            (attempt E downloadUrl
                               (task_output_path E a urls outputDirectory url (id_text popped)))
                            (0, [])) of
                  Inl err \<Rightarrow> False
                | Inr done \<Rightarrow> True)))"

definition task_succeeds ::
  "'z denv_scheme \<Rightarrow> argv \<Rightarrow> string list \<Rightarrow> string \<Rightarrow> string \<Rightarrow> bool" where
  "task_succeeds E a urls outputDirectory url =
     (download_succeeds E a urls outputDirectory url \<and> appendFile E (url @ [CHR 0x0A]) = None)"

subsection \<open>asyncPool\<close>

text \<open>
  \<^verbatim>\<open>
  async function asyncPool(poolLimit, array, iteratorFn) {
    const ret = [];
    const executing = [];
    for (const item of array) {
      const p = Promise.resolve().then(() => iteratorFn(item, array));
      ret.push(p);
      if (poolLimit <= array.length) {
        const e = p.then(() => executing.splice(executing.indexOf(e), 1));
        executing.push(e);
        if (executing.length >= poolLimit) {
          await Promise.race(executing);
        }
      }
    }
    return Promise.all(ret);
  }
  \<close>
  The tasks run interleaved on one event loop, so a run of the pool is a sequence of
  steps, each enabled or not in a state of the pool:
  \<^item> \<open>Iterate\<close>: one turn of the \<^verbatim>\<open>for\<close> loop. It creates the promise \<open>p\<close> of the
    next item, numbered by its position in \<open>ret\<close>, and, when
    \<^verbatim>\<open>poolLimit <= array.length\<close>, pushes \<open>e\<close> and, with \<open>executing\<close> full, stops at the
    \<^verbatim>\<open>await\<close> of the race. The race rejects at once if \<open>executing\<close> holds a rejected
    promise.
  \<^item> \<open>Settle i\<close>: task \<open>i\<close> runs \<open>iteratorFn\<close> on the shared state and its promise
    \<open>p\<close> settles. When it fulfils, the callback of \<open>e\<close> splices \<open>e\<close> out of
    \<open>executing\<close>; when it rejects, \<open>e\<close> rejects and stays. Either settles a pending race.
  \<^item> \<open>Resume\<close>: the loop continues after the race has fulfilled, or the function throws
    after the race has rejected.
  \<^item> \<open>Return\<close>: the loop is over and the function returns \<^verbatim>\<open>Promise.all(ret)\<close>.
  A task is in flight from the creation of its promise to its settling. Tasks act on the
  shared state only by whole calls (one \<^verbatim>\<open>appendFile\<close> each) and do not read it, so
  the body of a task is run in one step, that of its settling.
\<close>

datatype loop_state = Running | Awaiting | Woken | Failing | Thrown | Joined

datatype step = Iterate | Settle nat | Resume | Return

record ('a, 'w) pool =
  remaining :: "'a list"
  ret :: nat
  executing :: "nat list"
  inflight :: "(nat \<times> 'a) list"
  settled :: "(nat \<times> bool) list"
  loop :: loop_state
  shared :: 'w

text \<open>\<^verbatim>\<open>xs.splice(start, 1)\<close>: a negative start counts from the end.\<close>

definition splice1 :: "'a list \<Rightarrow> int \<Rightarrow> 'a list" where
  "splice1 xs start =
     (let n = int (length xs);
          k = nat (if start < 0 then max (n + start) 0 else min start n)
      in take k xs @ drop (Suc k) xs)"

definition pool_init :: "'a list \<Rightarrow> 'w \<Rightarrow> ('a, 'w) pool" where
  "pool_init array w =
     \<lparr>remaining = array, ret = 0, executing = [], inflight = [], settled = [], loop = Running,
      shared = w\<rparr>"

fun pool_step ::
  "int \<Rightarrow> 'a list \<Rightarrow> ('a \<Rightarrow> 'a list \<Rightarrow> 'w \<Rightarrow> (error + unit) \<times> 'w) \<Rightarrow> step
     \<Rightarrow> ('a, 'w) pool \<Rightarrow> ('a, 'w) pool option" where
  "pool_step poolLimit array iteratorFn Iterate S =
     (case remaining S of
        [] \<Rightarrow> None
      | item # items \<Rightarrow>
          if loop S \<noteq> Running then None
          else (let S1 = S\<lparr>remaining := items, ret := Suc (ret S),
                            inflight := inflight S @ [(ret S, item)]\<rparr>
                in if poolLimit \<le> int (length array)
                   then (let ex = executing S @ [ret S]
                         in if int (length ex) \<ge> poolLimit
                            then Some (S1\<lparr>executing := ex,
                                          loop := (if \<exists>e\<in>set ex. (e, False) \<in> set (settled S)
                                                   then Failing else Awaiting)\<rparr>)
                            else Some (S1\<lparr>executing := ex\<rparr>))
                   else Some S1))"
| "pool_step poolLimit array iteratorFn (Settle i) S =
     (case map_of (inflight S) i of
        None \<Rightarrow> None
      | Some item \<Rightarrow>
          (case iteratorFn item array (shared S) of
             (Inr done, w) \<Rightarrow>
               (let S1 = S\<lparr>inflight := filter (\<lambda>t. fst t \<noteq> i) (inflight S),
                            settled := settled S @ [(i, True)], shared := w\<rparr>
                in if poolLimit \<le> int (length array)
                   then Some (S1\<lparr>executing := splice1 (executing S) (indexOf (executing S) i),
                                 loop := (if loop S = Awaiting then Woken else loop S)\<rparr>)
                   else Some S1)
           | (Inl err, w) \<Rightarrow>
               (let S1 = S\<lparr>inflight := filter (\<lambda>t. fst t \<noteq> i) (inflight S),
                            settled := settled S @ [(i, False)], shared := w\<rparr>
                in if poolLimit \<le> int (length array)
                   then Some (S1\<lparr>loop := (if loop S = Awaiting then Failing else loop S)\<rparr>)
                   else Some S1)))"
| "pool_step poolLimit array iteratorFn Resume S =
     (if loop S = Woken then Some (S\<lparr>loop := Running\<rparr>)
      else if loop S = Failing then Some (S\<lparr>loop := Thrown\<rparr>)
      else None)"
| "pool_step poolLimit array iteratorFn Return S =
     (if loop S = Running \<and> remaining S = [] then Some (S\<lparr>loop := Joined\<rparr>) else None)"

text \<open>A run: the steps taken one after the other, \<open>None\<close> if one of them is not enabled.\<close>

fun pool_run ::
  "int \<Rightarrow> 'a list \<Rightarrow> ('a \<Rightarrow> 'a list \<Rightarrow> 'w \<Rightarrow> (error + unit) \<times> 'w) \<Rightarrow> step list
     \<Rightarrow> ('a, 'w) pool \<Rightarrow> ('a, 'w) pool option" where
  "pool_run poolLimit array iteratorFn [] S = Some S"
| "pool_run poolLimit array iteratorFn (x # xs) S =
     (case pool_step poolLimit array iteratorFn x S of
        None \<Rightarrow> None
      | Some S' \<Rightarrow> pool_run poolLimit array iteratorFn xs S')"

text \<open>The pool is over when the function has returned or thrown and no task is in flight.\<close>

definition finished :: "('a, 'w) pool \<Rightarrow> bool" where
  "finished S = ((loop S = Joined \<or> loop S = Thrown) \<and> inflight S = [])"

text \<open>A call of \<^verbatim>\<open>asyncPool\<close> on the shared state \<open>w\<close>, followed for the steps given.\<close>

definition asyncPool ::
  "int \<Rightarrow> 'a list \<Rightarrow> ('a \<Rightarrow> 'a list \<Rightarrow> 'w \<Rightarrow> (error + unit) \<times> 'w) \<Rightarrow> 'w \<Rightarrow> step list
     \<Rightarrow> ('a, 'w) pool option" where
  "asyncPool poolLimit array iteratorFn w steps =
     pool_run poolLimit array iteratorFn steps (pool_init array w)"

subsection \<open>downloadFromList\<close>

text \<open>
  \<^verbatim>\<open>
  const downloadFromList = async () => {
    const downloadedSet = await readDownloadedLog();
    const filePath = path.resolve(argv.list);
    const fileContent = await fsPromises.readFile(filePath, 'utf8');
    const urls = fileContent.split(/\r?\n/).filter(url => url.trim() && !downloadedSet.has(url));
    const outputDirectory = argv.out ? path.resolve(argv.out) : path.join(__dirname, 'Downloads');
    const downloadTask = async (url) => { ... };
    const concurrencyLimit = 5; // Adjust the concurrency limit as needed
    await asyncPool(concurrencyLimit, urls, downloadTask);
  };
  \<close>
  \<open>fileContent\<close> is the text read from the list file, \<open>w\<close> the state at the start.
\<close>

definition list_urls :: "world \<Rightarrow> string \<Rightarrow> string list" where
  "list_urls w fileContent =
     filter (\<lambda>url. trim url \<noteq> [] \<and> url \<notin> readDownloadedLog w) (split_lines fileContent)"

definition outputDirectory :: "'z denv_scheme \<Rightarrow> argv \<Rightarrow> string" where
  "outputDirectory E a =
     (case argv_out a of
        None \<Rightarrow> path_join E (dirname E) ''Downloads''
      | Some out \<Rightarrow>
          if out \<noteq> [] then path_resolve E out else path_join E (dirname E) ''Downloads'')"

definition concurrencyLimit :: int where
  "concurrencyLimit = 5"

definition list_task ::
  "'z denv_scheme \<Rightarrow> argv \<Rightarrow> string list \<Rightarrow> string \<Rightarrow> string list \<Rightarrow> world \<Rightarrow> (error + unit) \<times> world" where
  "list_task E a urls url array = downloadTask E a urls (outputDirectory E a) url"

definition downloadFromList ::
  "'z denv_scheme \<Rightarrow> argv \<Rightarrow> string \<Rightarrow> world \<Rightarrow> step list \<Rightarrow> (string, world) pool option" where
  "downloadFromList E a fileContent w steps =
     (let urls = list_urls w fileContent
      in asyncPool concurrencyLimit urls (list_task E a urls) w steps)"

text \<open>The text of a log of these lines.\<close>

definition log_lines :: "string list \<Rightarrow> string" where
  "log_lines us = concat (map (\<lambda>u. u @ [CHR 0x0A]) us)"

subsection \<open>Example batches\<close>

text \<open>
  A world in which every page is the page with two links and every append works; the
  download of the videos \<open>v1\<close> and \<open>v3\<close> fails at every attempt, any other succeeds at
  once. The command line asks for a timeout of 1000 ms.
\<close>

definition demo_env :: denv where
  "demo_env =
     \<lparr>GET = (\<lambda>url. Inr links_page), writeFile = (\<lambda>data. None), JSON_parse = (\<lambda>text. None),
      POST = (\<lambda>url. Inl (Failure ''404'')),
      downloadLoomVideo = (\<lambda>url outputPath k.
         if outputPath = ''/app/Downloads/v1.mp4'' \<or> outputPath = ''/app/Downloads/v3.mp4''
         then Inl (Failure ''403'') else Inr ()),
      appendFile = (\<lambda>text. None),
      path_join = (\<lambda>dir name. dir @ ''/'' @ name), path_resolve = (\<lambda>p. p), dirname = ''/app''\<rparr>"

definition demo_argv :: argv where
  "demo_argv = \<lparr>argv_url = None, argv_list = Some ''urls.txt'', argv_prefix = None,
                 argv_out = None, argv_timeout = Some 1000\<rparr>"

definition empty_world :: world where
  "empty_world = \<lparr>log_file = None, trace = []\<rparr>"

text \<open>Five URLs, and a run of them through a pool of two that settles the tasks in the
  order 1, 0, 2, 4, 3.\<close>

definition demo_urls :: "string list" where
  "demo_urls = [''s/v1'', ''s/v2'', ''s/v3'', ''s/v4'', ''s/v5'']"

definition demo_steps :: "step list" where
  "demo_steps = [Iterate, Iterate, Settle 1, Resume, Iterate, Settle 0, Resume, Iterate,
                 Settle 2, Resume, Iterate, Settle 4, Settle 3, Resume, Return]"

definition demo_final :: "(string, world) pool" where
  "demo_final =
     \<lparr>remaining = [], ret = 5, executing = [], inflight = [],
      settled = [(1, True), (0, True), (2, True), (4, True), (3, True)], loop = Joined,
      shared =
        \<lparr>log_file = Some (log_lines [''s/v2'', ''s/v5'', ''s/v4'']),
         trace = [Attempt, Sleep 5000,
                  Attempt, Sleep 1000, Attempt, Sleep 2000, Attempt, Sleep 4000, Attempt,
                  Sleep 8000, Attempt,
                  Attempt, Sleep 1000, Attempt, Sleep 2000, Attempt, Sleep 4000, Attempt,
                  Sleep 8000, Attempt,
                  Attempt, Sleep 5000, Attempt, Sleep 5000]\<rparr>\<rparr>"

text \<open>A batch of one URL, run to its end; and a batch of two, both tasks started.\<close>

definition single_final :: "(string, world) pool" where
  "single_final =
     \<lparr>remaining = [], ret = 1, executing = [], inflight = [], settled = [(0, True)],
      loop = Joined,
      shared = \<lparr>log_file = Some (log_lines [''s/v2'']), trace = [Attempt, Sleep 5000]\<rparr>\<rparr>"

definition two_started :: "(string, world) pool" where
  "two_started =
     \<lparr>remaining = [], ret = 2, executing = [], inflight = [(0, ''s/v1''), (1, ''s/v2'')],
      settled = [], loop = Running, shared = empty_world\<rparr>"

text \<open>An iterator that fulfils at once and counts its calls.\<close>

definition count_task :: "string \<Rightarrow> string list \<Rightarrow> nat \<Rightarrow> (error + unit) \<times> nat" where
  "count_task item array n = (Inr (), Suc n)"

text \<open>Three items through a pool of two, after the third task has started.\<close>

definition count_state :: "(string, nat) pool" where
  "count_state =
     \<lparr>remaining = [], ret = 3, executing = [0, 2], inflight = [(0, ''a''), (2, ''c'')],
      settled = [(1, True)], loop = Awaiting, shared = 1\<rparr>"



definition logged_A :: world where
  "logged_A = \<lparr>log_file = Some (''A'' @ [CHR 0x0A]), trace = []\<rparr>"

definition file_A_B :: string where
  "file_A_B = ''A'' @ [CHR 0x0A] @ ''B''"

definition only_B_started :: "(string, world) pool" where
  "only_B_started =
     \<lparr>remaining = [], ret = 1, executing = [], inflight = [(0, ''B'')], settled = [],
      loop = Running, shared = logged_A\<rparr>"

text \<open>One item through a pool with limit 0, after its task has started.\<close>

definition zero_limit_state :: "(string, nat) pool" where
  "zero_limit_state =
     \<lparr>remaining = [], ret = 1, executing = [0], inflight = [(0, ''a'')], settled = [],
      loop = Awaiting, shared = 0\<rparr>"

subsection \<open>Reading a state of the pool\<close>

text \<open>
  What holds in every state a run reaches: the tasks created are those numbered below
  \<open>ret\<close>, each in flight or settled, each run on the item of its number; the loop is at
  item \<open>ret\<close>; a promise in \<open>executing\<close> is in flight or rejected; and when
  \<open>executing\<close> is kept, it holds every task in flight, at most \<open>poolLimit\<close> promises
  (one, for a limit below 1), and fewer while the loop is running.
\<close>

definition pool_inv :: "int \<Rightarrow> 'a list \<Rightarrow> ('a, 'w) pool \<Rightarrow> bool" where
  "pool_inv poolLimit array S =
     (distinct (map fst (inflight S)) \<and> distinct (map fst (settled S))
      \<and> (\<forall>t\<in>set (inflight S). snd t = array ! fst t)
      \<and> fst ` set (settled S) \<union> fst ` set (inflight S) = {0..<ret S}
      \<and> fst ` set (settled S) \<inter> fst ` set (inflight S) = {}
      \<and> remaining S = drop (ret S) array \<and> ret S \<le> length array
      \<and> (loop S = Joined \<longrightarrow> remaining S = [])
      \<and> distinct (executing S)
      \<and> (\<forall>i\<in>set (executing S). i \<in> fst ` set (inflight S) \<or> (i, False) \<in> set (settled S))
      \<and> (\<not> poolLimit \<le> int (length array) \<longrightarrow>
            executing S = [] \<and> (loop S = Running \<or> loop S = Joined))
      \<and> (poolLimit \<le> int (length array) \<longrightarrow>
            fst ` set (inflight S) \<subseteq> set (executing S)
            \<and> int (length (executing S)) \<le> max poolLimit 1
            \<and> (loop S = Running \<or> loop S = Woken \<longrightarrow> int (length (executing S)) < max poolLimit 1)
            \<and> (loop S = Awaiting \<longrightarrow> executing S \<noteq> [] \<and> set (executing S) \<subseteq> fst ` set (inflight S))))"

text \<open>The steps a run can still take are bounded by this measure.\<close>

definition pool_measure :: "('a, 'w) pool \<Rightarrow> nat" where
  "pool_measure S =
     4 * length (remaining S) + 2 * length (inflight S)
     + (case loop S of Joined \<Rightarrow> 0 | Thrown \<Rightarrow> 0 | Woken \<Rightarrow> 2 | _ \<Rightarrow> 1)"

text \<open>No task has rejected and the pool has not thrown.\<close>

definition no_reject :: "('a, 'w) pool \<Rightarrow> bool" where
  "no_reject S = (list_all snd (settled S) \<and> loop S \<noteq> Failing \<and> loop S \<noteq> Thrown)"

text \<open>The items of the settled tasks that satisfy \<open>ok\<close>, in the order of settling.\<close>

definition gained :: "('a \<Rightarrow> bool) \<Rightarrow> 'a list \<Rightarrow> (nat \<times> bool) list \<Rightarrow> 'a list" where
  "gained ok array done = filter ok (map (\<lambda>t. array ! fst t) done)"

section \<open>Properties of extractId\<close>

lemma js_split_not_Nil: "js_split c s \<noteq> []"
  by (induction s) (auto split: list.splits)

lemma js_split_no_sep: "c \<notin> set s \<Longrightarrow> js_split c s = [s]"
  by (induction s) auto

lemma js_split_append_sep: "js_split c (xs @ c # ys) = js_split c xs @ js_split c ys"
proof (induction xs)
  case Nil
  show ?case by simp
next
  case (Cons x xs)
  obtain y ys' where "js_split c xs = y # ys'"
    using js_split_not_Nil [of c xs] by (cases "js_split c xs") auto
  with Cons show ?case by simp
qed

lemma hd_js_split: "hd (js_split c s) = takeWhile (\<lambda>x. x \<noteq> c) s"
  by (induction s) (auto split: list.splits simp: js_split_not_Nil)

lemma takeWhile_neq_all: "c \<notin> set xs \<Longrightarrow> takeWhile (\<lambda>x. x \<noteq> c) xs = xs"
  by (induction xs) auto

lemma rev_takeWhile_rev_all:
  "c \<notin> set s \<Longrightarrow> rev (takeWhile (\<lambda>x. x \<noteq> c) (rev s)) = s"
proof -
  assume "c \<notin> set s"
  then have "c \<notin> set (rev s)" by simp
  then have "takeWhile (\<lambda>x. x \<noteq> c) (rev s) = rev s"
    by (rule takeWhile_neq_all)
  then show ?thesis by (simp only: rev_rev_ident)
qed

lemma rev_takeWhile_rev_tail:
  "c \<notin> set ys \<Longrightarrow> rev (takeWhile (\<lambda>x. x \<noteq> c) (rev (xs @ c # ys))) = ys"
proof -
  assume a: "c \<notin> set ys"
  have "takeWhile (\<lambda>x. x \<noteq> c) (rev ys @ c # rev xs) = rev ys"
    using a by (induction ys rule: rev_induct) auto
  then show ?thesis by simp
qed

lemma last_js_split: "last (js_split c s) = rev (takeWhile (\<lambda>x. x \<noteq> c) (rev s))"
proof (cases "c \<in> set s")
  case False
  have "last (js_split c s) = s"
    unfolding js_split_no_sep [OF False] by simp
  then show ?thesis
    by (simp only: rev_takeWhile_rev_all [OF False])
next
  case True
  then obtain xs ys where s: "s = xs @ c # ys" and ys: "c \<notin> set ys"
    by (auto dest: split_list_last)
  have "last (js_split c s) = ys"
    using ys by (simp add: s js_split_append_sep js_split_no_sep js_split_not_Nil)
  then show ?thesis
    by (simp only: s rev_takeWhile_rev_tail [OF ys])
qed

lemma extractId_eq:
  "extractId url =
     Inr (Some (rev (takeWhile (\<lambda>x. x \<noteq> CHR ''/'')
                  (rev (takeWhile (\<lambda>x. x \<noteq> CHR ''?'') url)))))"
proof -
  obtain u us where u: "js_split CHR ''?'' url = u # us"
    using js_split_not_Nil [of "CHR ''?''" url] by (cases "js_split CHR ''?'' url") auto
  have "u = takeWhile (\<lambda>x. x \<noteq> CHR ''?'') url"
    using hd_js_split [of "CHR ''?''" url] u by simp
  then show ?thesis
    by (simp add: extractId_def u pop_def js_split_not_Nil last_js_split)
qed

text \<open>
  Claim C8, as the code has it. \<open>extractId\<close> never throws and returns the text after the
  last \<open>/\<close> of the URL cut at its first \<open>?\<close>. That text is empty exactly when the cut
  URL is empty or ends in \<open>/\<close>; non-emptiness is not guaranteed. On
  \<^verbatim>\<open>https://example.com/share/abc123?t=5\<close> the result is \<^verbatim>\<open>abc123\<close>.
\<close>

theorem extractId_last_segment:
  "extractId url =
     Inr (Some (rev (takeWhile (\<lambda>x. x \<noteq> CHR ''/'')
                  (rev (takeWhile (\<lambda>x. x \<noteq> CHR ''?'') url)))))
   \<and> (extractId url = Inr (Some []) \<longleftrightarrow>
        (takeWhile (\<lambda>x. x \<noteq> CHR ''?'') url = []
         \<or> last (takeWhile (\<lambda>x. x \<noteq> CHR ''?'') url) = CHR ''/''))
   \<and> extractId ''https://example.com/share/abc123?t=5'' = Inr (Some ''abc123'')"
proof -
  let ?p = "takeWhile (\<lambda>x. x \<noteq> CHR ''?'') url"
  have "(takeWhile (\<lambda>x. x \<noteq> CHR ''/'') (rev ?p) = []) \<longleftrightarrow> (?p = [] \<or> last ?p = CHR ''/'')"
    by (cases ?p rule: rev_cases) auto
  moreover have "extractId ''https://example.com/share/abc123?t=5'' = Inr (Some ''abc123'')"
    by (simp add: extractId_def pop_def)
  ultimately show ?thesis
    by (simp add: extractId_eq)
qed

text \<open>
  Claim C8, as stated, fails: a share URL with a trailing slash yields the empty
  identifier.
\<close>

theorem extractId_nonempty_counterexample:
  "extractId ''https://www.loom.com/share/abc123/'' = Inr (Some [])"
  by (simp add: extractId_def pop_def)

section \<open>Properties of backoff\<close>

lemma after_Suc_shift: "after fn (Suc k) s = after fn k (snd (fn s))"
  by (simp add: after_def funpow_Suc_right del: funpow.simps)

lemma after_0: "after fn 0 s = s"
  by (simp add: after_def)

lemma rounds_shift:
  "concat (map (\<lambda>i. [Attempt, Sleep (d * 2 ^ i)]) [0..<Suc k]) =
     Attempt # Sleep d # concat (map (\<lambda>i. [Attempt, Sleep (d * 2 * 2 ^ i)]) [0..<k])"
proof -
  have "[0..<Suc k] = 0 # map Suc [0..<k]"
    by (simp add: upt_rec [of 0 "Suc k"] map_Suc_upt del: upt_Suc)
  then show ?thesis
    by (simp add: comp_def mult.assoc del: upt_Suc)
qed

lemma backoff_failing_trace:
  assumes fails: "\<forall>s. \<exists>e. fst (fn s) = Inl e"
  shows "\<exists>k. snd (snd (backoff r fn d (s, tr))) =
               tr @ concat (map (\<lambda>i. [Attempt, Sleep (d * 2 ^ i)]) [0..<k]) @ [Attempt]
           \<and> (\<forall>i<k. 1 < r - int i \<and> d * 2 ^ i \<le> 32000)
           \<and> \<not> (1 < r - int k \<and> d * 2 ^ k \<le> 32000)
           \<and> fst (backoff r fn d (s, tr)) = fst (fn (after fn k s))
           \<and> fst (snd (backoff r fn d (s, tr))) = snd (fn (after fn k s))"
  using fails
proof (induction r fn d "(s, tr)" arbitrary: s tr rule: backoff.induct)
  case (1 retries fn delay s tr)
  from "1.prems" obtain err where "fst (fn s) = Inl err" by blast
  then obtain s' where fs: "fn s = (Inl err, s')" by (cases "fn s") auto
  show ?case
  proof (cases "1 < retries \<and> delay \<le> 32000")
    case False
    then have "backoff retries fn delay (s, tr) = (Inl err, s', tr @ [Attempt])"
      by (subst backoff.simps) (auto simp: fs)
    with False fs show ?thesis
      by (intro exI [of _ 0]) (simp add: after_0)
  next
    case True
    then have unf: "backoff retries fn delay (s, tr) =
        backoff (retries - 1) fn (delay * 2) (s', tr @ [Attempt, Sleep delay])"
      by (subst backoff.simps) (simp add: fs)
    from "1.hyps" [OF fs [symmetric] refl True "1.prems"]
    obtain k where k:
      "snd (snd (backoff (retries - 1) fn (delay * 2) (s', tr @ [Attempt, Sleep delay]))) =
         (tr @ [Attempt, Sleep delay]) @
         concat (map (\<lambda>i. [Attempt, Sleep (delay * 2 * 2 ^ i)]) [0..<k]) @ [Attempt]"
      "\<forall>i<k. 1 < retries - 1 - int i \<and> delay * 2 * 2 ^ i \<le> 32000"
      "\<not> (1 < retries - 1 - int k \<and> delay * 2 * 2 ^ k \<le> 32000)"
      "fst (backoff (retries - 1) fn (delay * 2) (s', tr @ [Attempt, Sleep delay])) =
         fst (fn (after fn k s'))"
      "fst (snd (backoff (retries - 1) fn (delay * 2) (s', tr @ [Attempt, Sleep delay]))) =
         snd (fn (after fn k s'))"
      by blast
    have s': "s' = snd (fn s)" by (simp add: fs)
    have bnd: "\<forall>i<Suc k. 1 < retries - int i \<and> delay * 2 ^ i \<le> 32000"
    proof (intro allI impI)
      fix i assume "i < Suc k"
      show "1 < retries - int i \<and> delay * 2 ^ i \<le> 32000"
      proof (cases i)
        case 0
        with True show ?thesis by simp
      next
        case (Suc j)
        with \<open>i < Suc k\<close> have "j < k" by simp
        with k(2) have "1 < retries - 1 - int j \<and> delay * 2 * 2 ^ j \<le> 32000" by blast
        with Suc show ?thesis by (simp add: mult.assoc)
      qed
    qed
    have stop: "\<not> (1 < retries - int (Suc k) \<and> delay * 2 ^ Suc k \<le> 32000)"
      using k(3) by (simp add: mult.assoc)
    show ?thesis
      apply (rule exI [of _ "Suc k"])
      apply (intro conjI)
          apply (simp only: unf k(1) rounds_shift) apply simp
         apply (rule bnd)
        apply (rule stop)
       apply (simp only: unf k(4) after_Suc_shift s' [symmetric])
      apply (simp only: unf k(5) after_Suc_shift s' [symmetric])
      done
  qed
qed


lemma backoff_three_failing:
  assumes fails: "\<forall>s. \<exists>e. fst (fn s) = Inl e"
  shows "backoff 3 fn 1000 (s, []) =
           (fst (fn (after fn 2 s)), snd (fn (after fn 2 s)),
            [Attempt, Sleep 1000, Attempt, Sleep 2000, Attempt])"
proof -
  obtain e0 s1 where f0: "fn s = (Inl e0, s1)"
    using fails [rule_format, of s] by (cases "fn s") auto
  obtain e1 s2 where f1: "fn s1 = (Inl e1, s2)"
    using fails [rule_format, of s1] by (cases "fn s1") auto
  obtain e2 s3 where f2: "fn s2 = (Inl e2, s3)"
    using fails [rule_format, of s2] by (cases "fn s2") auto
  have a2: "after fn 2 s = s2"
    by (simp add: after_def numeral_2_eq_2 f0 f1)
  have "backoff 3 fn 1000 (s, []) = backoff 2 fn 2000 (s1, [Attempt, Sleep 1000])"
    by (subst backoff.simps) (simp add: f0)
  also have "\<dots> = backoff 1 fn 4000 (s2, [Attempt, Sleep 1000, Attempt, Sleep 2000])"
    by (subst backoff.simps) (simp add: f1)
  also have "\<dots> = (Inl e2, s3, [Attempt, Sleep 1000, Attempt, Sleep 2000, Attempt])"
    by (subst backoff.simps) (simp add: f2)
  finally show ?thesis
    by (simp add: a2 f2)
qed

text \<open>
  Claim C2. Let the attempt fail on every call. Then the run of \<open>backoff r fn d\<close> is
  \<open>k\<close> rounds of an attempt followed by a wait, and a last attempt; the waits are
  \<open>d\<close>, \<open>2 d\<close>, \<open>4 d\<close>, ..., each round entered with a remaining retry
  count above 1 and a delay of at most 32000, and the round after the last is refused by
  that test. The promise rejects with the error of the last attempt. In particular
  \<open>backoff 3 fn 1000\<close> makes 3 attempts, waits 1000 then 2000, and rejects with the third
  attempt's error.
\<close>

theorem backoff_always_failing:
  assumes "\<forall>s. \<exists>e. fst (fn s) = Inl e"
  shows "(\<exists>k. snd (snd (backoff r fn d (s, tr))) =
               tr @ concat (map (\<lambda>i. [Attempt, Sleep (d * 2 ^ i)]) [0..<k]) @ [Attempt]
           \<and> (\<forall>i<k. 1 < r - int i \<and> d * 2 ^ i \<le> 32000)
           \<and> \<not> (1 < r - int k \<and> d * 2 ^ k \<le> 32000)
           \<and> fst (backoff r fn d (s, tr)) = fst (fn (after fn k s))
           \<and> fst (snd (backoff r fn d (s, tr))) = snd (fn (after fn k s)))
     \<and> backoff 3 fn 1000 (s, []) =
           (fst (fn (after fn 2 s)), snd (fn (after fn 2 s)),
            [Attempt, Sleep 1000, Attempt, Sleep 2000, Attempt])"
  using backoff_failing_trace [OF assms] backoff_three_failing [OF assms] by blast

text \<open>The attempt that fails with its own call number, run from call number 0.\<close>

theorem backoff_always_failing_witness:
  "(\<forall>s. \<exists>e. fst ((\<lambda>n::nat. (Inl n :: nat + unit, Suc n)) s) = Inl e)
   \<and> backoff 3 (\<lambda>n::nat. (Inl n :: nat + unit, Suc n)) 1000 (0, []) =
       (Inl 2, 3, [Attempt, Sleep 1000, Attempt, Sleep 2000, Attempt])"
proof -
  have h: "\<forall>s. \<exists>e. fst ((\<lambda>n::nat. (Inl n :: nat + unit, Suc n)) s) = Inl e"
    by simp
  have "after (\<lambda>n::nat. (Inl n :: nat + unit, Suc n)) 2 0 = 2"
    by (simp add: after_def numeral_2_eq_2)
  with backoff_always_failing [OF h, of 3 1000 0 "[]"] h show ?thesis
    by simp
qed

lemma attempts_append: "attempts (xs @ ys) = attempts xs + attempts ys"
  by (simp add: attempts_def)

lemma sleeps_append: "sleeps (xs @ ys) = sleeps xs @ sleeps ys"
  by (simp add: sleeps_def)

lemma backoff_bound:
  "32000 < d * 2 ^ n \<Longrightarrow> 0 < d \<Longrightarrow>
     attempts (snd (snd (backoff r fn d (s, tr)))) \<le> attempts tr + Suc n
     \<and> length (sleeps (snd (snd (backoff r fn d (s, tr))))) \<le> length (sleeps tr) + n"
proof (induction n arbitrary: r d s tr)
  case 0
  then have "\<not> d \<le> 32000" by simp
  then show ?case
    by (subst (1 2) backoff.simps)
       (auto simp: attempts_append sleeps_append attempts_def sleeps_def split: prod.splits sum.splits)
next
  case (Suc n)
  obtain res s' where f: "fn s = (res, s')" by (cases "fn s") auto
  show ?case
  proof (cases "\<exists>err. res = Inl err \<and> 1 < r \<and> d \<le> 32000")
    case True
    then obtain err where res: "res = Inl err" and c: "1 < r" "d \<le> 32000" by blast
    have unf: "backoff r fn d (s, tr) = backoff (r - 1) fn (d * 2) (s', tr @ [Attempt, Sleep d])"
      by (subst backoff.simps) (simp add: f res c)
    have "32000 < d * 2 * 2 ^ n" "0 < d * 2"
      using Suc.prems by (simp_all add: mult.assoc)
    from Suc.IH [OF this, of "r - 1" s' "tr @ [Attempt, Sleep d]"] show ?thesis
      by (simp add: unf attempts_append sleeps_append attempts_def sleeps_def)
  next
    case False
    then have "snd (snd (backoff r fn d (s, tr))) = tr @ [Attempt]"
      by (subst backoff.simps) (auto simp: f split: sum.splits)
    then show ?thesis
      by (simp add: attempts_append sleeps_append attempts_def sleeps_def)
  qed
qed

text \<open>
  Claim C10. With the default delay of 1000, whatever the retry count and whatever the
  attempt does, \<open>backoff\<close> returns after at most 7 attempts and at most 6 waits.
  (\<open>backoff\<close> is a total function: its recursion ends on the retry count.)
\<close>

theorem backoff_default_at_most_seven:
  "attempts (snd (snd (backoff_default r fn (s, [])))) \<le> 7
   \<and> length (sleeps (snd (snd (backoff_default r fn (s, []))))) \<le> 6"
  using backoff_bound [of 1000 6 r fn s "[]"]
  by (simp add: backoff_default_def attempts_def sleeps_def)

text \<open>The bound is reached: 100 retries of a failing attempt stop after the wait of 32000.\<close>

lemma backoff_default_seven_reached:
  "snd (snd (backoff_default 100 (\<lambda>n::nat. (Inl n :: nat + unit, Suc n)) (0, []))) =
     [Attempt, Sleep 1000, Attempt, Sleep 2000, Attempt, Sleep 4000, Attempt, Sleep 8000,
      Attempt, Sleep 16000, Attempt, Sleep 32000, Attempt]"
  by (simp add: backoff_default_def backoff.simps)

section \<open>Properties of the URL extraction\<close>

lemmas regex_defs = exec_def apolloStateRegex_def mp4Regex_def scriptRegex_def downloadRegex_def
  videoRegex_def lits_def litsI_def substr_def is_space_def dq_def sq_def bsl_def quoted_def
  toUpperCase_def upper_table_def

subsection \<open>The matcher\<close>

text \<open>Where a match ends, and what a successful match says about the subject.\<close>

lemma rmatch_bounds:
  "rmatch re s pos caps = Some (e, c) \<Longrightarrow> pos \<le> e \<and> e \<le> pos + length s"
  by (induction re s pos caps arbitrary: e c rule: rmatch.induct)
     (fastforce split: if_splits option.splits)+

lemma rmatch_One_progress:
  "rmatch (Atom a One # r) s pos caps = Some (e, c) \<Longrightarrow> pos < e"
  by (cases s) (auto split: if_splits dest: rmatch_bounds)

lemma rsearch_bounds:
  "rsearch re s p = Some (i, e, c) \<Longrightarrow>
     p \<le> i \<and> i \<le> e \<and> e \<le> p + length s
     \<and> rmatch re (drop (i - p) s) i (None, None) = Some (e, c)"
proof (induction re s p rule: rsearch.induct)
  case (1 re i)
  then show ?case by (auto split: option.splits dest: rmatch_bounds)
next
  case (2 re x xs j)
  show ?case
  proof (cases "rmatch re (x # xs) j (None, None)")
    case (Some m)
    with 2 show ?thesis by (auto dest: rmatch_bounds)
  next
    case None
    with 2 have r: "rsearch re xs (Suc j) = Some (i, e, c)" by simp
    from "2.IH" [OF None r] have
      b: "Suc j \<le> i" "i \<le> e" "e \<le> Suc j + length xs"
      and m: "rmatch re (drop (i - Suc j) xs) i (None, None) = Some (e, c)" by auto
    from b(1) have "drop (i - j) (x # xs) = drop (i - Suc j) xs"
      by (simp add: Suc_diff_le drop_Cons')
    with b m show ?thesis by simp
  qed
qed

lemma rmatch_lits_Some:
  "rmatch (lits l @ r) s p caps = Some res
   \<Longrightarrow> \<exists>t. s = l @ t \<and> rmatch r t (p + length l) caps = Some res"
proof (induction l arbitrary: s p)
  case Nil
  then show ?case by (simp add: lits_def)
next
  case (Cons c l)
  from Cons.prems obtain xs where s: "s = c # xs"
    and m: "rmatch (lits l @ r) xs (Suc p) caps = Some res"
    by (cases s) (auto simp: lits_def split: if_splits)
  from Cons.IH [OF m] s show ?case by auto
qed

lemma rmatch_Star_Some:
  "rmatch (Atom c Star # r) s p caps = Some res
   \<Longrightarrow> \<exists>a t. s = a @ t \<and> list_all (cmatch c) a \<and> rmatch r t (p + length a) caps = Some res"
proof (induction s arbitrary: p)
  case Nil
  then have "rmatch r [] (p + length ([] :: string)) caps = Some res" by simp
  then show ?case by (intro exI [of _ "[]"]) simp
next
  case (Cons x xs)
  show ?case
  proof (cases "cmatch c x \<and> rmatch (Atom c Star # r) xs (Suc p) caps \<noteq> None")
    case True
    with Cons.prems have "rmatch (Atom c Star # r) xs (Suc p) caps = Some res"
      by (auto split: option.splits)
    from Cons.IH [OF this] obtain a t where "xs = a @ t" "list_all (cmatch c) a"
      "rmatch r t (Suc p + length a) caps = Some res" by blast
    with True show ?thesis
      by (intro exI [of _ "x # a"] exI [of _ t]) simp
  next
    case False
    with Cons.prems have "rmatch r (x # xs) (p + length ([] :: string)) caps = Some res"
      by (auto split: option.splits if_splits)
    then show ?thesis
      by (intro exI [of _ "[]"] exI [of _ "x # xs"]) simp
  qed
qed

lemma rmatch_Plus_Some:
  "rmatch (Atom c Plus # r) s p caps = Some res
   \<Longrightarrow> \<exists>a t. s = a @ t \<and> a \<noteq> [] \<and> list_all (cmatch c) a
          \<and> rmatch r t (p + length a) caps = Some res"
proof -
  assume m: "rmatch (Atom c Plus # r) s p caps = Some res"
  then obtain x xs where s: "s = x # xs" and x: "cmatch c x"
    and m': "rmatch (Atom c Star # r) xs (Suc p) caps = Some res"
    by (cases s) (auto split: if_splits)
  from rmatch_Star_Some [OF m'] obtain a t where "xs = a @ t" "list_all (cmatch c) a"
    "rmatch r t (Suc p + length a) caps = Some res" by blast
  with s x show ?thesis
    by (intro exI [of _ "x # a"] exI [of _ t]) simp
qed

lemma rmatch_LazyStar_Some:
  "rmatch (Atom c LazyStar # r) s p caps = Some res
   \<Longrightarrow> \<exists>a t. s = a @ t \<and> rmatch r t (p + length a) caps = Some res"
proof (induction s arbitrary: p)
  case Nil
  then have "rmatch r [] (p + length ([] :: string)) caps = Some res" by simp
  then show ?case by (intro exI [of _ "[]"]) simp
next
  case (Cons x xs)
  show ?case
  proof (cases "rmatch r (x # xs) p caps")
    case (Some m)
    with Cons.prems have "rmatch r (x # xs) (p + length ([] :: string)) caps = Some res" by simp
    then show ?thesis
      by (intro exI [of _ "[]"] exI [of _ "x # xs"]) simp
  next
    case None
    with Cons.prems have "rmatch (Atom c LazyStar # r) xs (Suc p) caps = Some res"
      by (auto split: if_splits)
    from Cons.IH [OF this] obtain a t where "xs = a @ t"
      "rmatch r t (Suc p + length a) caps = Some res" by blast
    then show ?thesis
      by (intro exI [of _ "x # a"] exI [of _ t]) simp
  qed
qed

subsection \<open>The embedded state\<close>

lemma cdn_url_truthy: "cdn_url v k = Some u \<Longrightarrow> truthy u"
  by (auto simp: cdn_url_def Let_def split: if_splits)

lemma scan_apollo_skip:
  "\<forall>kv\<in>set pre. \<not> (video_record kv \<and>
       (cdn_url (snd kv) M3U8_key \<noteq> None \<or> cdn_url (snd kv) DASH_key \<noteq> None))
   \<Longrightarrow> scan_apollo (pre @ rest) Null = scan_apollo rest Null"
  by (induction pre) (auto simp: video_record_def cdn_url_def Let_def)

lemma scan_apollo_m3u8:
  "video_record (key, videoData) \<Longrightarrow> cdn_url videoData M3U8_key = Some u
   \<Longrightarrow> scan_apollo ((key, videoData) # post) w = u"
  by (auto simp: video_record_def cdn_url_def Let_def split: if_splits)

lemma scan_apollo_dash:
  "video_record (key, videoData) \<Longrightarrow> cdn_url videoData M3U8_key = None
   \<Longrightarrow> cdn_url videoData DASH_key = Some u
   \<Longrightarrow> scan_apollo ((key, videoData) # post) Null = u"
  by (auto simp: video_record_def cdn_url_def Let_def split: if_splits)

lemma scan_apollo_Null_or_truthy:
  "scan_apollo kvs Null = Null \<or> truthy (scan_apollo kvs Null)"
  by (induction kvs) (auto simp: Let_def)

lemma method1_Null_or_truthy: "method1 p html = Null \<or> truthy (method1 p html)"
  using scan_apollo_Null_or_truthy
  by (auto simp: method1_def split: option.splits prod.splits)

lemma extractVideoUrl_truthy1:
  "truthy (method1 p html) \<Longrightarrow> extractVideoUrl p html = method1 p html"
  by (simp add: extractVideoUrl_def Let_def)

text \<open>The text that the pattern of the state captures is never empty.\<close>

lemma apolloStateRegex_eq:
  "apolloStateRegex =
     lits ''window.__APOLLO_STATE__'' @ (Atom Space Star # (lits ''='' @ (Atom Space Star #
       GroupOpen # (lits ''{'' @ (Atom Any LazyStar # (lits ''}'' @ (GroupClose # (lits '';'' @ []))))))))"
  by (simp add: apolloStateRegex_def)

lemma apollo_rmatch_group:
  assumes "rmatch apolloStateRegex s p caps = Some (e, k)"
  shows "\<exists>a b. k = (Some a, Some b) \<and> p \<le> a \<and> a < b \<and> b < e"
proof -
  from rmatch_lits_Some [OF assms [unfolded apolloStateRegex_eq]] obtain t1 where
    m1: "rmatch (Atom Space Star # (lits ''='' @ (Atom Space Star #
           GroupOpen # (lits ''{'' @ (Atom Any LazyStar # (lits ''}'' @ (GroupClose # (lits '';'' @ []))))))))
           t1 (p + length ''window.__APOLLO_STATE__'') caps = Some (e, k)" by blast
  from rmatch_Star_Some [OF m1] obtain a1 t2 where
    "t1 = a1 @ t2" "list_all (cmatch Space) a1" and
    m2: "rmatch (lits ''='' @ (Atom Space Star #
           GroupOpen # (lits ''{'' @ (Atom Any LazyStar # (lits ''}'' @ (GroupClose # (lits '';'' @ [])))))))
           t2 (p + length ''window.__APOLLO_STATE__'' + length a1) caps = Some (e, k)" by blast
  from rmatch_lits_Some [OF m2] obtain t3 where
    m3: "rmatch (Atom Space Star #
           GroupOpen # (lits ''{'' @ (Atom Any LazyStar # (lits ''}'' @ (GroupClose # (lits '';'' @ []))))))
           t3 (p + length ''window.__APOLLO_STATE__'' + length a1 + length ''='') caps = Some (e, k)"
    by blast
  from rmatch_Star_Some [OF m3] obtain a2 t4 where
    "t3 = a2 @ t4" "list_all (cmatch Space) a2" and
    m4: "rmatch (GroupOpen # (lits ''{'' @ (Atom Any LazyStar # (lits ''}'' @ (GroupClose # (lits '';'' @ []))))))
           t4 (p + length ''window.__APOLLO_STATE__'' + length a1 + length ''='' + length a2) caps
           = Some (e, k)"
    by blast
  define q where "q = p + length ''window.__APOLLO_STATE__'' + length a1 + length ''='' + length a2"
  from m4 have m5: "rmatch (lits ''{'' @ (Atom Any LazyStar # (lits ''}'' @ (GroupClose # (lits '';'' @ [])))))
           t4 q (Some q, snd caps) = Some (e, k)"
    unfolding q_def [symmetric] by simp
  from rmatch_lits_Some [OF m5] obtain t5 where
    m6: "rmatch (Atom Any LazyStar # (lits ''}'' @ (GroupClose # (lits '';'' @ []))))
           t5 (q + length ''{'') (Some q, snd caps) = Some (e, k)" by blast
  from rmatch_LazyStar_Some [OF m6] obtain a3 t6 where
    "t5 = a3 @ t6" and
    m7: "rmatch (lits ''}'' @ (GroupClose # (lits '';'' @ [])))
           t6 (q + length ''{'' + length a3) (Some q, snd caps) = Some (e, k)" by blast
  from rmatch_lits_Some [OF m7] obtain t7 where
    m8: "rmatch (GroupClose # (lits '';'' @ []))
           t7 (q + length ''{'' + length a3 + length ''}'') (Some q, snd caps) = Some (e, k)" by blast
  define b where "b = q + length ''{'' + length a3 + length ''}''"
  from m8 have m9: "rmatch (lits '';'' @ []) t7 b (Some q, Some b) = Some (e, k)"
    unfolding b_def [symmetric] by simp
  from rmatch_lits_Some [OF m9] obtain t8 where
    m10: "rmatch [] t8 (b + length '';'') (Some q, Some b) = Some (e, k)" by blast
  then have "k = (Some q, Some b)" "e = b + 1" by simp_all
  moreover have "p \<le> q" "q < b" by (simp_all add: q_def b_def)
  ultimately show ?thesis by simp
qed

lemma apollo_capture_nonempty:
  assumes "exec apolloStateRegex html = Some (m, Some blob)"
  shows "blob \<noteq> []"
proof -
  from assms obtain i e k where rs: "rsearch apolloStateRegex html 0 = Some (i, e, k)"
    by (auto simp: exec_def split: option.splits)
  from rsearch_bounds [OF rs] have el: "e \<le> length html"
    and rm: "rmatch apolloStateRegex (drop (i - 0) html) i (None, None) = Some (e, k)" by auto
  from apollo_rmatch_group [OF rm] obtain a b where k: "k = (Some a, Some b)"
    and ab: "a < b" "b < e" by blast
  from assms rs k have "blob = substr html a b" by (simp add: exec_def)
  with ab el show ?thesis by (simp add: substr_def)
qed

text \<open>
  Claim C1, as the code has it. Let the pattern
  \<^verbatim>\<open>/window\.__APOLLO_STATE__\s*=\s*({.*?});/s\<close> match the page, and let the text
  that it captures, from the opening brace to the first \<^verbatim>\<open>}\<close> that a \<^verbatim>\<open>;\<close>
  follows, be parsed by \<^verbatim>\<open>JSON.parse\<close> to an object. Take the first video record of
  that object, in the order of the keys, that has a usable M3U8 or DASH URL. Extraction
  returns the M3U8 URL of that record when it has one, whether or not the record has a
  DASH URL too, and the DASH URL of that record otherwise. (The loop stops at that record:
  what later records hold is never read.)
\<close>

theorem m3u8_preferred_in_first_record:
  assumes "exec apolloStateRegex html = Some (m, Some blob)"
    and "parse blob = Some (Obj (pre @ (key, videoData) # post))"
    and "\<forall>kv\<in>set pre. \<not> (video_record kv \<and>
            (cdn_url (snd kv) M3U8_key \<noteq> None \<or> cdn_url (snd kv) DASH_key \<noteq> None))"
    and "video_record (key, videoData)"
  shows "(cdn_url videoData M3U8_key = Some u \<longrightarrow> extractVideoUrl parse html = u)
       \<and> (cdn_url videoData M3U8_key = None \<and> cdn_url videoData DASH_key = Some d
            \<longrightarrow> extractVideoUrl parse html = d)"
proof -
  have ne: "blob \<noteq> []" using assms(1) by (rule apollo_capture_nonempty)
  have m1: "method1 parse html = scan_apollo ((key, videoData) # post) Null"
    using assms(1,2) ne by (simp add: method1_def scan_apollo_skip [OF assms(3)])
  show ?thesis
  proof (intro conjI impI)
    assume a: "cdn_url videoData M3U8_key = Some u"
    have "method1 parse html = u" unfolding m1 using assms(4) a by (rule scan_apollo_m3u8)
    moreover have "truthy u" using a by (rule cdn_url_truthy)
    ultimately show "extractVideoUrl parse html = u" by (simp add: extractVideoUrl_truthy1)
  next
    assume a: "cdn_url videoData M3U8_key = None \<and> cdn_url videoData DASH_key = Some d"
    then have n: "cdn_url videoData M3U8_key = None" and s: "cdn_url videoData DASH_key = Some d"
      by simp_all
    have "method1 parse html = d" unfolding m1 using assms(4) n s by (rule scan_apollo_dash)
    moreover have "truthy d" using s by (rule cdn_url_truthy)
    ultimately show "extractVideoUrl parse html = d" by (simp add: extractVideoUrl_truthy1)
  qed
qed

lemma both_page_exec:
  "exec apolloStateRegex both_page
     = Some (''window.__APOLLO_STATE__ = '' @ both_blob @ '';'', Some both_blob)"
  by (simp add: both_page_def both_blob_def json_string_def M3U8_key_def DASH_key_def regex_defs)

text \<open>The page whose only video record has a DASH and an M3U8 URL yields the M3U8 URL.\<close>

theorem m3u8_preferred_in_first_record_witness:
  "exec apolloStateRegex both_page
     = Some (''window.__APOLLO_STATE__ = '' @ both_blob @ '';'', Some both_blob)
   \<and> both_parse both_blob
       = Some (Obj ([(''ROOT_QUERY'', Obj [])] @ (''RegularUserVideo:7'', both_record) # []))
   \<and> \<not> video_record (''ROOT_QUERY'', Obj [])
   \<and> video_record (''RegularUserVideo:7'', both_record)
   \<and> cdn_url both_record DASH_key = Some (Str ''https://cdn/v.mpd'')
   \<and> cdn_url both_record M3U8_key = Some (Str ''https://cdn/v.m3u8'')
   \<and> extractVideoUrl both_parse both_page = Str ''https://cdn/v.m3u8''"
proof -
  have h3: "both_parse both_blob
      = Some (Obj ([(''ROOT_QUERY'', Obj [])] @ (''RegularUserVideo:7'', both_record) # []))"
    by (simp add: both_parse_def)
  have h4: "\<forall>kv\<in>set [(''ROOT_QUERY'', Obj [])]. \<not> (video_record kv \<and>
          (cdn_url (snd kv) M3U8_key \<noteq> None \<or> cdn_url (snd kv) DASH_key \<noteq> None))"
    by (simp add: video_record_def startsWith_def)
  have h5: "video_record (''RegularUserVideo:7'', both_record)"
    by (simp add: video_record_def startsWith_def both_record_def)
  have h6: "cdn_url both_record M3U8_key = Some (Str ''https://cdn/v.m3u8'')"
    by (simp add: both_record_def cdn_url_def M3U8_key_def DASH_key_def quoted_def dq_def)
  have d: "cdn_url both_record DASH_key = Some (Str ''https://cdn/v.mpd'')"
    by (simp add: both_record_def cdn_url_def M3U8_key_def DASH_key_def quoted_def dq_def)
  from m3u8_preferred_in_first_record
         [where parse = both_parse and html = both_page and blob = both_blob
            and pre = "[(''ROOT_QUERY'', Obj [])]" and post = "[]"
            and u = "Str ''https://cdn/v.m3u8''",
          OF both_page_exec h3 h4 h5] h6
  have "extractVideoUrl both_parse both_page = Str ''https://cdn/v.m3u8''" by simp
  moreover have "\<not> video_record (''ROOT_QUERY'', Obj [])"
    by (simp add: video_record_def startsWith_def)
  ultimately show ?thesis
    using both_page_exec h3 h5 h6 d by blast
qed

lemma dash_first_page_exec:
  "exec apolloStateRegex dash_first_page
     = Some (''window.__APOLLO_STATE__ = '' @ dash_first_blob @ '';'', Some dash_first_blob)"
  by (simp add: dash_first_page_def dash_first_blob_def json_string_def M3U8_key_def DASH_key_def
        regex_defs)

text \<open>
  Claim C1, as stated, fails: the pattern captures the whole state of this page, which
  parses; its first video record has a DASH URL only and its second an M3U8 URL, and
  extraction returns the DASH URL.
\<close>

theorem m3u8_over_dash_counterexample:
  "exec apolloStateRegex dash_first_page
     = Some (''window.__APOLLO_STATE__ = '' @ dash_first_blob @ '';'', Some dash_first_blob)
   \<and> dash_first_parse dash_first_blob = Some dash_first_state
   \<and> cdn_url (get_prop dash_first_state ''RegularUserVideo:1'') DASH_key
       = Some (Str ''https://cdn/v.mpd'')
   \<and> cdn_url (get_prop dash_first_state ''RegularUserVideo:2'') M3U8_key
       = Some (Str ''https://cdn/v.m3u8'')
   \<and> extractVideoUrl dash_first_parse dash_first_page = Str ''https://cdn/v.mpd''"
proof -
  have s: "scan_apollo (for_in dash_first_state) Null = Str ''https://cdn/v.mpd''"
    by (simp add: dash_first_state_def startsWith_def M3U8_key_def DASH_key_def quoted_def dq_def)
  have "dash_first_blob \<noteq> []" by (simp add: dash_first_blob_def)
  then have "method1 dash_first_parse dash_first_page = Str ''https://cdn/v.mpd''"
    by (simp add: method1_def dash_first_page_exec dash_first_parse_def s)
  then have "extractVideoUrl dash_first_parse dash_first_page = Str ''https://cdn/v.mpd''"
    by (simp add: extractVideoUrl_truthy1)
  moreover have "cdn_url (get_prop dash_first_state ''RegularUserVideo:1'') DASH_key
      = Some (Str ''https://cdn/v.mpd'')"
    by (simp add: dash_first_state_def cdn_url_def M3U8_key_def DASH_key_def quoted_def dq_def)
  moreover have "cdn_url (get_prop dash_first_state ''RegularUserVideo:2'') M3U8_key
      = Some (Str ''https://cdn/v.m3u8'')"
    by (simp add: dash_first_state_def cdn_url_def M3U8_key_def DASH_key_def quoted_def dq_def)
  ultimately show ?thesis
    by (simp add: dash_first_page_exec dash_first_parse_def)
qed

text \<open>
  The captured text is not always the whole state: the lazy \<^verbatim>\<open>.*?\<close> stops at the
  first \<^verbatim>\<open>};\<close>, also inside a string of the state. On such a page
  \<^verbatim>\<open>JSON.parse\<close> is given the cut text, throws, and method 1 finds nothing.
\<close>

lemma semi_page_exec:
  "exec apolloStateRegex semi_page
     = Some (''window.__APOLLO_STATE__ = '' @ semi_cut @ '';'', Some semi_cut)"
  by (simp add: semi_page_def semi_blob_def semi_cut_def json_string_def M3U8_key_def regex_defs)

lemma state_cut_at_first_close:
  "semi_parse semi_blob = Some semi_state
   \<and> cdn_url (get_prop semi_state ''RegularUserVideo:1'') M3U8_key = Some (Str ''https://cdn/v.m3u8'')
   \<and> exec apolloStateRegex semi_page
       = Some (''window.__APOLLO_STATE__ = '' @ semi_cut @ '';'', Some semi_cut)
   \<and> semi_cut \<noteq> semi_blob
   \<and> method1 semi_parse semi_page = Null"
proof -
  have c: "semi_cut \<noteq> semi_blob"
    by (simp add: semi_cut_def semi_blob_def json_string_def quoted_def dq_def)
  then have "method1 semi_parse semi_page = Null"
    by (simp add: method1_def semi_page_exec semi_parse_def)
  moreover have "cdn_url (get_prop semi_state ''RegularUserVideo:1'') M3U8_key
      = Some (Str ''https://cdn/v.m3u8'')"
    by (simp add: semi_state_def cdn_url_def M3U8_key_def quoted_def dq_def)
  ultimately show ?thesis using c
    by (simp add: semi_page_exec semi_parse_def)
qed

subsection \<open>Direct links\<close>

lemma match_all_nonempty:
  "m \<in> set (match_all (Atom a One # r) s k) \<Longrightarrow> m \<noteq> []"
proof (induction "Atom a One # r" s k rule: match_all.induct)
  case (1 s lastIndex)
  show ?case
  proof (cases "length s < lastIndex")
    case True
    with "1.prems" show ?thesis by (simp add: match_all.simps)
  next
    case False
    show ?thesis
    proof (cases "rsearch (Atom a One # r) (drop lastIndex s) lastIndex")
      case None
      with False "1.prems" show ?thesis by (simp add: match_all.simps)
    next
      case (Some t)
      obtain i e c where t: "t = (i, e, c)" by (cases t) auto
      from rsearch_bounds [OF Some [unfolded t]] have
        b: "lastIndex \<le> i" "e \<le> lastIndex + length (drop lastIndex s)"
        and rm: "rmatch (Atom a One # r) (drop (i - lastIndex) (drop lastIndex s)) i (None, None)
                   = Some (e, c)"
        by auto
      from rmatch_One_progress [OF rm] have ie: "i < e" .
      from b False have "e \<le> length s" by simp
      with ie have ne: "substr s i e \<noteq> []" by (simp add: substr_def)
      from "1.prems" False Some t
      have "m = substr s i e
            \<or> m \<in> set (match_all (Atom a One # r) s (if e = i then Suc e else e))"
        by (subst (asm) match_all.simps) auto
      then show ?thesis
      proof
        assume "m = substr s i e"
        with ne show ?thesis by simp
      next
        assume "m \<in> set (match_all (Atom a One # r) s (if e = i then Suc e else e))"
        with "1.hyps" [OF False Some [unfolded t] refl refl] show ?thesis by simp
      qed
    qed
  qed
qed

text \<open>The matches of the link pattern are the links of the page.\<close>

lemma cmatch_link_class: "cmatch (Neg [Lit dq, Lit sq, Space]) c = link_char c"
  by (simp add: link_char_def)

lemma rmatch_success_indep:
  "(rmatch re s p c = None) = (rmatch re s p' c' = None)"
proof (induction re s p c arbitrary: p' c' rule: rmatch.induct)
  case (1 s pos caps)
  show ?case by simp
next
  case (2 r s pos caps)
  from "2.IH" [of p' "(Some p', snd c')"] show ?case by simp
next
  case (3 r s pos caps)
  from "3.IH" [of p' "(fst c', Some p')"] show ?case by simp
next
  case (4 c r pos caps)
  show ?case by simp
next
  case (5 c r x xs pos caps)
  show ?case
  proof (cases "cmatch c x")
    case True
    from "5.IH" [OF True, of "Suc p'" c'] True show ?thesis by simp
  next
    case False
    then show ?thesis by simp
  qed
next
  case (6 c r pos caps)
  show ?case by simp
next
  case (7 c r x xs pos caps)
  show ?case
  proof (cases "cmatch c x")
    case True
    from "7.IH" [OF True, of "Suc p'" c'] True show ?thesis by simp
  next
    case False
    then show ?thesis by simp
  qed
next
  case (8 c r pos caps)
  from "8.IH" [of p' c'] show ?case by simp
next
  case (9 c r x xs pos caps)
  show ?case
  proof (cases "cmatch c x")
    case True
    from "9.IH"(1) [OF True, of "Suc p'" c']
    have a: "(rmatch (Atom c Star # r) xs (Suc pos) caps = None)
           = (rmatch (Atom c Star # r) xs (Suc p') c' = None)" .
    show ?thesis
    proof (cases "rmatch (Atom c Star # r) xs (Suc pos) caps")
      case None
      with a have n': "rmatch (Atom c Star # r) xs (Suc p') c' = None" by simp
      from "9.IH"(2) [OF True None, of p' c'] True None n' show ?thesis by simp
    next
      case (Some m)
      with a obtain m' where "rmatch (Atom c Star # r) xs (Suc p') c' = Some m'" by auto
      with Some True show ?thesis by simp
    qed
  next
    case False
    with "9.IH"(3) [OF False, of p' c'] show ?thesis by simp
  qed
next
  case (10 c r pos caps)
  from "10.IH" [of p' c'] show ?case by simp
next
  case (11 c r x xs pos caps)
  from "11.IH"(1) [of p' c']
  have a: "(rmatch r (x # xs) pos caps = None) = (rmatch r (x # xs) p' c' = None)" .
  show ?case
  proof (cases "rmatch r (x # xs) pos caps")
    case (Some m)
    with a obtain m' where "rmatch r (x # xs) p' c' = Some m'" by auto
    with Some show ?thesis by simp
  next
    case None
    with a have n': "rmatch r (x # xs) p' c' = None" by simp
    show ?thesis
    proof (cases "cmatch c x")
      case True
      from "11.IH"(2) [OF None True, of "Suc p'" c'] None n' True show ?thesis by simp
    next
      case False
      with None n' show ?thesis by simp
    qed
  qed
qed


lemma rmatch_Star_end: "rmatch [Atom c Star] s p caps \<noteq> None"
  by (induction s arbitrary: p) (auto split: option.splits)

lemma rmatch_Star_complete:
  "list_all (cmatch c) a \<Longrightarrow> rmatch r t p' caps' \<noteq> None
   \<Longrightarrow> rmatch (Atom c Star # r) (a @ t) p caps \<noteq> None"
proof (induction a arbitrary: p)
  case Nil
  from Nil(2) have r: "rmatch r t p caps \<noteq> None"
    using rmatch_success_indep [of r t p' caps' p caps] by simp
  show ?case
  proof (cases t)
    case Nil
    with r show ?thesis by simp
  next
    case (Cons x xs)
    with r show ?thesis by (auto split: option.splits)
  qed
next
  case (Cons y ys)
  from Cons.IH [OF _ Cons.prems(2), of "Suc p"] Cons.prems(1)
  have "rmatch (Atom c Star # r) (ys @ t) (Suc p) caps \<noteq> None" by simp
  with Cons.prems(1) show ?case by (auto split: option.splits)
qed

lemma rmatch_lits: "rmatch (lits l @ r) (l @ t) p caps = rmatch r t (p + length l) caps"
  by (induction l arbitrary: p) (simp_all add: lits_def)

lemma mp4Regex_eq:
  "mp4Regex = lits ''https://'' @ (Atom (Neg [Lit dq, Lit sq, Space]) Plus
                # (lits ''.mp4'' @ [Atom (Neg [Lit dq, Lit sq, Space]) Star]))"
  by (simp add: mp4Regex_def)

lemma mp4_rmatch_complete:
  assumes "a \<noteq> []" and "list_all link_char a"
  shows "rmatch mp4Regex (''https://'' @ a @ ''.mp4'' @ post) p caps \<noteq> None"
proof -
  let ?cls = "Neg [Lit dq, Lit sq, Space]"
  let ?R = "lits ''.mp4'' @ [Atom ?cls Star]"
  from assms obtain x a' where a: "a = x # a'" and x: "cmatch ?cls x"
    and a': "list_all (cmatch ?cls) a'"
    by (cases a) (auto simp: cmatch_link_class list_all_iff simp del: cmatch.simps)
  have "rmatch ?R (''.mp4'' @ post) q caps \<noteq> None" for q
    unfolding rmatch_lits by (rule rmatch_Star_end)
  from rmatch_Star_complete [OF a' this]
  have "rmatch (Atom ?cls Star # ?R) (a' @ ''.mp4'' @ post) q caps \<noteq> None" for q .
  then have "rmatch (Atom ?cls Plus # ?R) (a @ ''.mp4'' @ post) q caps \<noteq> None" for q
    using x by (simp add: a del: cmatch.simps)
  then show ?thesis
    unfolding mp4Regex_eq rmatch_lits .
qed

lemma rsearch_complete:
  "rmatch re (drop k s) p' c' \<noteq> None \<Longrightarrow> k \<le> length s \<Longrightarrow> rsearch re s p \<noteq> None"
proof (induction s arbitrary: k p)
  case Nil
  then have "rmatch re [] p (None, None) \<noteq> None"
    using rmatch_success_indep [of re "[]" p' c' p "(None, None)"] by simp
  then show ?case by (auto split: option.splits)
next
  case (Cons x xs)
  show ?case
  proof (cases "rmatch re (x # xs) p (None, None)")
    case (Some m)
    then show ?thesis by (auto split: option.splits)
  next
    case None
    then have n: "rmatch re (x # xs) p' c' = None"
      using rmatch_success_indep [of re "x # xs" p "(None, None)" p' c'] by simp
    with Cons.prems(1) have "k \<noteq> 0" by (cases k) auto
    then obtain j where k: "k = Suc j" by (cases k) auto
    with Cons.prems have "rmatch re (drop j xs) p' c' \<noteq> None" "j \<le> length xs" by simp_all
    from Cons.IH [OF this, of "Suc p"] None show ?thesis by simp
  qed
qed

lemma match_all_nonempty_if: "rsearch re s 0 \<noteq> None \<Longrightarrow> match_all re s 0 \<noteq> []"
  by (subst match_all.simps) (auto split: option.splits)

lemma has_mp4_link_matches: "has_mp4_link html \<Longrightarrow> match_all mp4Regex html 0 \<noteq> []"
proof -
  assume "has_mp4_link html"
  then obtain pre a post where h: "html = pre @ ''https://'' @ a @ ''.mp4'' @ post"
    and a: "a \<noteq> []" "list_all link_char a"
    unfolding has_mp4_link_def by blast
  have "rmatch mp4Regex (drop (length pre) html) 0 (None, None) \<noteq> None"
    unfolding h using mp4_rmatch_complete [OF a] by simp
  moreover have "length pre \<le> length html" by (simp add: h)
  ultimately have "rsearch mp4Regex html 0 \<noteq> None" by (rule rsearch_complete)
  then show ?thesis by (rule match_all_nonempty_if)
qed

lemma mp4_rmatch_shape:
  assumes "rmatch mp4Regex s p caps = Some (e, k)"
  shows "\<exists>a b t. s = ''https://'' @ a @ ''.mp4'' @ b @ t \<and> a \<noteq> [] \<and> list_all link_char (a @ b)
           \<and> e = p + 12 + length a + length b"
proof -
  let ?cls = "Neg [Lit dq, Lit sq, Space]"
  from rmatch_lits_Some [OF assms [unfolded mp4Regex_eq]] obtain t1 where
    s1: "s = ''https://'' @ t1"
    and m1: "rmatch (Atom ?cls Plus # (lits ''.mp4'' @ [Atom ?cls Star])) t1
               (p + length ''https://'') caps = Some (e, k)" by blast
  from rmatch_Plus_Some [OF m1] obtain a t2 where
    s2: "t1 = a @ t2" and a: "a \<noteq> []" "list_all (cmatch ?cls) a"
    and m2: "rmatch (lits ''.mp4'' @ [Atom ?cls Star]) t2 (p + length ''https://'' + length a) caps
               = Some (e, k)" by blast
  from rmatch_lits_Some [OF m2] obtain t3 where
    s3: "t2 = ''.mp4'' @ t3"
    and m3: "rmatch [Atom ?cls Star] t3 (p + length ''https://'' + length a + length ''.mp4'') caps
               = Some (e, k)" by blast
  from rmatch_Star_Some [OF m3] obtain b t where
    s4: "t3 = b @ t" and b: "list_all (cmatch ?cls) b"
    and m4: "rmatch [] t (p + length ''https://'' + length a + length ''.mp4'' + length b) caps
               = Some (e, k)" by blast
  from m4 have e: "e = p + 12 + length a + length b" by simp
  from a(2) b have "list_all link_char (a @ b)"
    by (auto simp: list_all_iff cmatch_link_class simp del: cmatch.simps)
  with s1 s2 s3 s4 a(1) e show ?thesis by auto
qed

lemma match_all_elem:
  "m \<in> set (match_all re s k) \<Longrightarrow>
     \<exists>i e c. m = substr s i e \<and> i \<le> e \<and> e \<le> length s
             \<and> rmatch re (drop i s) i (None, None) = Some (e, c)"
proof (induction re s k rule: match_all.induct)
  case (1 re s lastIndex)
  show ?case
  proof (cases "length s < lastIndex")
    case True
    with "1.prems" show ?thesis by (simp add: match_all.simps)
  next
    case False
    show ?thesis
    proof (cases "rsearch re (drop lastIndex s) lastIndex")
      case None
      with False "1.prems" show ?thesis by (simp add: match_all.simps)
    next
      case (Some t)
      obtain i e c where t: "t = (i, e, c)" by (cases t) auto
      from rsearch_bounds [OF Some [unfolded t]] have
        b: "lastIndex \<le> i" "i \<le> e" "e \<le> lastIndex + length (drop lastIndex s)"
        and rm: "rmatch re (drop (i - lastIndex) (drop lastIndex s)) i (None, None) = Some (e, c)"
        by auto
      from b(1) have "drop (i - lastIndex) (drop lastIndex s) = drop i s" by simp
      with rm have rm': "rmatch re (drop i s) i (None, None) = Some (e, c)" by simp
      from b False have el: "e \<le> length s" by simp
      from "1.prems" False Some t
      have "m = substr s i e \<or> m \<in> set (match_all re s (if e = i then Suc e else e))"
        by (subst (asm) match_all.simps) auto
      then show ?thesis
      proof
        assume "m = substr s i e"
        with b(2) el rm' show ?thesis by blast
      next
        assume "m \<in> set (match_all re s (if e = i then Suc e else e))"
        with "1.IH" [OF False Some [unfolded t] refl refl] show ?thesis by simp
      qed
    qed
  qed
qed

lemma take_length_append: "take (length xs) (xs @ ys) = xs"
  by simp

lemma mp4_matches_are_links: "m \<in> set (match_all mp4Regex html k) \<Longrightarrow> is_mp4_link m"
proof -
  assume "m \<in> set (match_all mp4Regex html k)"
  from match_all_elem [OF this] obtain i e c where
    m: "m = substr html i e" and ie: "i \<le> e" "e \<le> length html"
    and rm: "rmatch mp4Regex (drop i html) i (None, None) = Some (e, c)" by blast
  from mp4_rmatch_shape [OF rm] obtain a b t where
    d: "drop i html = ''https://'' @ a @ ''.mp4'' @ b @ t" and a: "a \<noteq> []"
    and l: "list_all link_char (a @ b)" and e: "e = i + 12 + length a + length b" by blast
  let ?u = "''https://'' @ a @ ''.mp4'' @ b"
  have len: "e - i = length ?u" unfolding e by simp
  have d': "drop i html = ?u @ t" unfolding d by simp
  have "m = take (length ?u) (?u @ t)"
    by (simp only: m substr_def len d')
  also have "\<dots> = ?u" by (rule take_length_append)
  finally have "m = ''https://'' @ a @ ''.mp4'' @ b" .
  with a l show ?thesis unfolding is_mp4_link_def by blast
qed

lemma foldl_longer_mem: "foldl longer m ms \<in> set (m # ms)"
  by (induction ms arbitrary: m) (auto simp: longer_def)

lemma foldl_longer_ge: "length m \<le> length (foldl longer m ms)"
proof (induction ms arbitrary: m)
  case Nil
  show ?case by simp
next
  case (Cons y ys)
  have "length m \<le> length (longer m y)" by (simp add: longer_def)
  also have "\<dots> \<le> length (foldl longer (longer m y) ys)" by (rule Cons.IH)
  finally show ?case by simp
qed

lemma foldl_longer_max: "x \<in> set (m # ms) \<Longrightarrow> length x \<le> length (foldl longer m ms)"
proof (induction ms arbitrary: m)
  case Nil
  then show ?case by simp
next
  case (Cons y ys)
  have "length m \<le> length (longer m y)" "length y \<le> length (longer m y)"
    by (simp_all add: longer_def)
  with Cons foldl_longer_ge [of "longer m y" ys] show ?case
    by (auto intro: order_trans)
qed

lemma method2_longest:
  "method2 html = Some u \<Longrightarrow>
     u \<in> set (match_all mp4Regex html 0) \<and> u \<noteq> []
     \<and> (\<forall>m\<in>set (match_all mp4Regex html 0). length m \<le> length u)"
proof -
  assume a: "method2 html = Some u"
  then obtain m ms where ms: "match_all mp4Regex html 0 = m # ms" and u: "u = foldl longer m ms"
    by (auto simp: method2_def split: list.splits)
  have mem: "u \<in> set (match_all mp4Regex html 0)"
    unfolding ms u by (rule foldl_longer_mem)
  have "mp4Regex = Atom (Lit CHR ''h'') One # tl mp4Regex"
    by (simp add: mp4Regex_def lits_def)
  with mem match_all_nonempty [of u "Lit CHR ''h''" "tl mp4Regex" html 0] have "u \<noteq> []"
    by simp
  moreover have "\<forall>x\<in>set (match_all mp4Regex html 0). length x \<le> length u"
    unfolding ms u using foldl_longer_max by blast
  ultimately show ?thesis using mem by simp
qed

lemma method2_None_iff: "method2 html = None \<longleftrightarrow> match_all mp4Regex html 0 = []"
  by (simp add: method2_def split: list.splits)

lemma extractVideoUrl_method2:
  "\<not> truthy (method1 p html) \<Longrightarrow> method2 html = Some u \<Longrightarrow> extractVideoUrl p html = Str u"
  using method2_longest [of html u] by (simp add: extractVideoUrl_def Let_def)

lemma extractVideoUrl_none:
  "\<not> truthy (method1 p html) \<Longrightarrow> method2 html = None \<Longrightarrow> field_value scriptRegex html = None
   \<Longrightarrow> field_value downloadRegex html = None \<Longrightarrow> field_value videoRegex html = None
   \<Longrightarrow> extractVideoUrl p html = Null"
  using method1_Null_or_truthy [of p html] by (auto simp: extractVideoUrl_def Let_def)

lemma fetch_found:
  "GET E (''https://www.loom.com/share/'' @ ident) = Inr html \<Longrightarrow> writeFile E html = None
   \<Longrightarrow> truthy (extractVideoUrl (JSON_parse E) html)
   \<Longrightarrow> fetchLoomDownloadUrl E ident = Inr (extractVideoUrl (JSON_parse E) html)"
  by (simp add: fetchLoomDownloadUrl_def Let_def)

lemma fetch_not_found:
  "GET E (''https://www.loom.com/share/'' @ ident) = Inr html \<Longrightarrow> writeFile E html = None
   \<Longrightarrow> extractVideoUrl (JSON_parse E) html = Null
   \<Longrightarrow> fetchLoomDownloadUrl E ident =
       (case POST E (''https://www.loom.com/api/campaigns/sessions/'' @ ident @ ''/transcoded-url'') of
          Inl apiError \<Rightarrow> Inl NoVideoUrlError
        | Inr data \<Rightarrow>
            if truthy data \<and> truthy (get_prop data ''url'')
            then Inr (get_prop data ''url'') else Inl NoVideoUrlError)"
  by (auto simp: fetchLoomDownloadUrl_def Let_def split: sum.splits)

text \<open>The scan covers the page: every link that occurs in the page is no longer than
  some match of \<^verbatim>\<open>html.match\<close>, and every match occurs in the page.\<close>

lemma rmatch_Star_greedy:
  "rmatch [Atom c Star] s p caps = Some (p + length (takeWhile (cmatch c) s), caps)"
  by (induction s arbitrary: p) simp_all

lemma mp4_rmatch_run:
  assumes "rmatch mp4Regex s p caps = Some (e, k)"
  shows "\<exists>r t. s = ''https://'' @ r @ t \<and> list_all link_char r
           \<and> (t = [] \<or> \<not> link_char (hd t)) \<and> e = p + 8 + length r"
proof -
  let ?cls = "Neg [Lit dq, Lit sq, Space]"
  from rmatch_lits_Some [OF assms [unfolded mp4Regex_eq]] obtain t1 where
    s1: "s = ''https://'' @ t1"
    and m1: "rmatch (Atom ?cls Plus # (lits ''.mp4'' @ [Atom ?cls Star])) t1
               (p + length ''https://'') caps = Some (e, k)" by blast
  from rmatch_Plus_Some [OF m1] obtain a t2 where
    s2: "t1 = a @ t2" and a: "list_all (cmatch ?cls) a"
    and m2: "rmatch (lits ''.mp4'' @ [Atom ?cls Star]) t2 (p + length ''https://'' + length a) caps
               = Some (e, k)" by blast
  from rmatch_lits_Some [OF m2] obtain t3 where
    s3: "t2 = ''.mp4'' @ t3"
    and m3: "rmatch [Atom ?cls Star] t3 (p + length ''https://'' + length a + length ''.mp4'') caps
               = Some (e, k)" by blast
  let ?b = "takeWhile (cmatch ?cls) t3"
  let ?t = "dropWhile (cmatch ?cls) t3"
  from m3 have e: "e = p + length ''https://'' + length a + length ''.mp4'' + length ?b"
    by (simp only: rmatch_Star_greedy option.inject prod.inject)
  have s4: "t3 = ?b @ ?t" by (rule takeWhile_dropWhile_id [symmetric])
  have b: "list_all (cmatch ?cls) ?b"
    unfolding list_all_iff by (blast dest: set_takeWhileD)
  have d: "?t = [] \<or> \<not> cmatch ?cls (hd ?t)"
    using hd_dropWhile [of "cmatch ?cls" t3] by blast
  have m: "list_all (cmatch ?cls) ''.mp4''"
    by (simp add: dq_def sq_def is_space_def)
  let ?r = "a @ ''.mp4'' @ ?b"
  have "s = ''https://'' @ ?r @ ?t"
    using s1 s2 s3 s4 by (simp only: append_assoc)
  moreover have "list_all link_char ?r"
    using a b m unfolding cmatch_link_class [symmetric] by (simp only: list_all_append simp_thms)
  moreover have "?t = [] \<or> \<not> link_char (hd ?t)"
    using d unfolding cmatch_link_class .
  moreover have "e = p + 8 + length ?r" unfolding e by simp
  ultimately show ?thesis by blast
qed

lemma rsearch_leftmost:
  "rsearch re s p = Some (i, e, c) \<Longrightarrow> rmatch re (drop d s) p' c' \<noteq> None \<Longrightarrow> d \<le> length s
   \<Longrightarrow> i \<le> p + d"
proof (induction s arbitrary: p d)
  case Nil
  then show ?case by (auto split: option.splits)
next
  case (Cons x xs)
  show ?case
  proof (cases "rmatch re (x # xs) p (None, None)")
    case (Some m)
    with Cons.prems(1) show ?thesis by (auto split: option.splits)
  next
    case None
    then have n: "rmatch re (x # xs) p' c' = None"
      using rmatch_success_indep [of re "x # xs" p "(None, None)" p' c'] by simp
    with Cons.prems(2) have "d \<noteq> 0" by (cases d) auto
    then obtain j where d: "d = Suc j" by (cases d) auto
    with Cons.prems have a: "rmatch re (drop j xs) p' c' \<noteq> None" and b: "j \<le> length xs"
      by simp_all
    from Cons.prems(1) None have r: "rsearch re xs (Suc p) = Some (i, e, c)" by simp
    from Cons.IH [OF r a b] show ?thesis by (simp add: d)
  qed
qed

lemma is_mp4_link_chars: "is_mp4_link v \<Longrightarrow> list_all link_char v"
  by (auto simp: is_mp4_link_def link_char_def dq_def sq_def is_space_def)

lemma match_all_occurs: "m \<in> set (match_all re s k) \<Longrightarrow> occurs_in m s"
proof -
  assume "m \<in> set (match_all re s k)"
  from match_all_elem [OF this] obtain i e where m: "m = substr s i e" by blast
  have "s = take i s @ take (e - i) (drop i s) @ drop (e - i) (drop i s)"
    by (simp only: append_take_drop_id)
  then show ?thesis unfolding occurs_in_def m substr_def by blast
qed

lemma match_all_unfold:
  assumes "\<not> length s < k" and "rsearch re (drop k s) k = Some (i, e, c)"
  shows "match_all re s k = substr s i e # match_all re s (if e = i then Suc e else e)"
  using assms by (subst match_all.simps) simp

lemma drop_length_append: "drop (length xs) (xs @ ys) = ys"
  by simp

lemma drop_le_drop: "k \<le> i \<Longrightarrow> drop (i - k) (drop k xs) = drop i xs"
  by simp

lemma match_all_covers:
  assumes "is_mp4_link v"
  shows "k \<le> length pre \<Longrightarrow> \<exists>m\<in>set (match_all mp4Regex (pre @ v @ post) k). length v \<le> length m"
proof (induction "length pre - k" arbitrary: k rule: less_induct)
  case less
  define s where "s = pre @ v @ post"
  let ?j = "length pre"
  from assms obtain a b where v: "v = ''https://'' @ a @ ''.mp4'' @ b"
    and a: "a \<noteq> []" "list_all link_char a"
    unfolding is_mp4_link_def by auto
  have ls: "length s = ?j + length v + length post" by (simp add: s_def)
  have djs: "drop ?j s = v @ post" by (simp add: s_def)
  have kl: "\<not> length s < k" using less.prems ls by simp
  have "drop (?j - k) (drop k s) = drop ?j s" using less.prems by (rule drop_le_drop)
  also have "\<dots> = ''https://'' @ a @ ''.mp4'' @ (b @ post)" unfolding djs v by simp
  finally have dj: "drop (?j - k) (drop k s) = ''https://'' @ a @ ''.mp4'' @ (b @ post)" .
  have ok: "rmatch mp4Regex (drop (?j - k) (drop k s)) 0 (None, None) \<noteq> None"
    unfolding dj by (rule mp4_rmatch_complete [OF a])
  have jk: "?j - k \<le> length (drop k s)" using ls by simp
  from ok jk have "rsearch mp4Regex (drop k s) k \<noteq> None" by (rule rsearch_complete)
  then obtain i e c where rs: "rsearch mp4Regex (drop k s) k = Some (i, e, c)" by auto
  from rsearch_leftmost [OF rs ok jk] less.prems have ij: "i \<le> ?j" by simp
  from rsearch_bounds [OF rs] have ki: "k \<le> i" and ie: "i \<le> e"
    and el: "e \<le> k + length (drop k s)"
    and rm: "rmatch mp4Regex (drop (i - k) (drop k s)) i (None, None) = Some (e, c)" by auto
  from el kl have el': "e \<le> length s" by simp
  from rm have rm': "rmatch mp4Regex (drop i s) i (None, None) = Some (e, c)"
    unfolding drop_le_drop [OF ki] .
  from mp4_rmatch_run [OF rm'] obtain r t where
    di: "drop i s = ''https://'' @ r @ t" and dl: "t = [] \<or> \<not> link_char (hd t)"
    and e: "e = i + 8 + length r" by blast
  have lm: "length (substr s i e) = e - i"
    using el' ie by (simp add: substr_def)
  have u: "match_all mp4Regex s k = substr s i e # match_all mp4Regex s e"
    using match_all_unfold [OF kl rs] e by simp
  have "\<exists>m\<in>set (match_all mp4Regex s k). length v \<le> length m"
  proof (cases "e \<le> ?j")
    case True
    have "length pre - e < length pre - k" using True ki e by simp
    from less.hyps [OF this True] obtain m where
      "m \<in> set (match_all mp4Regex s e)" "length v \<le> length m" unfolding s_def by blast
    then show ?thesis unfolding u by auto
  next
    case False
    then have je: "?j \<le> e" by simp
    have "?j + length v \<le> e"
    proof (rule ccontr)
      assume "\<not> ?j + length v \<le> e"
      then have n: "e - ?j < length v" using False by simp
      have "drop e s = drop (e - i) (drop i s)" by (rule drop_le_drop [OF ie, symmetric])
      also have "\<dots> = drop (length (''https://'' @ r)) ((''https://'' @ r) @ t)"
      proof -
        have "e - i = length (''https://'' @ r)" unfolding e by simp
        moreover have "drop i s = (''https://'' @ r) @ t" unfolding di by simp
        ultimately show ?thesis by (simp only:)
      qed
      also have "\<dots> = t" by (rule drop_length_append)
      finally have t: "t = drop e s" by simp
      have "drop e s = drop (e - ?j) (drop ?j s)" by (rule drop_le_drop [OF je, symmetric])
      also have "\<dots> = drop (e - ?j) v @ post" unfolding djs using n by simp
      finally have t': "t = drop (e - ?j) v @ post" unfolding t .
      from n have ne: "drop (e - ?j) v \<noteq> []" by simp
      then have "hd t = hd (drop (e - ?j) v)" unfolding t' by simp
      also have "\<dots> \<in> set (drop (e - ?j) v)" using ne by (rule hd_in_set)
      finally have "hd t \<in> set v" by (rule in_set_dropD)
      with is_mp4_link_chars [OF assms] have "link_char (hd t)" by (simp add: list_all_iff)
      moreover from ne have "t \<noteq> []" unfolding t' by simp
      ultimately show False using dl by simp
    qed
    with ij have "length v \<le> e - i" by simp
    then show ?thesis unfolding u lm [symmetric] by simp
  qed
  then show ?case unfolding s_def .
qed

text \<open>
  Claim C9, as the code has it. A link is \<^verbatim>\<open>https://\<close>, one or more characters other
  than quotes and white space, \<^verbatim>\<open>.mp4\<close>, and any further such characters: it may run
  on past the extension. When the embedded state gives no URL and the page has an HTTPS
  text ending in \<^verbatim>\<open>.mp4\<close>, extraction returns a link that occurs in the page, and no
  link that occurs in the page is longer; \<^verbatim>\<open>fetchLoomDownloadUrl\<close> returns it when the
  page was fetched and saved.
\<close>

theorem longest_mp4_link:
  assumes "\<not> truthy (method1 (JSON_parse E) html)" and "has_mp4_link html"
  shows "\<exists>u. extractVideoUrl (JSON_parse E) html = Str u
             \<and> is_mp4_link u \<and> occurs_in u html
             \<and> (\<forall>v. is_mp4_link v \<and> occurs_in v html \<longrightarrow> length v \<le> length u)
             \<and> (GET E (''https://www.loom.com/share/'' @ ident) = Inr html \<and> writeFile E html = None
                  \<longrightarrow> fetchLoomDownloadUrl E ident = Inr (Str u))"
proof -
  from assms(2) have "match_all mp4Regex html 0 \<noteq> []" by (rule has_mp4_link_matches)
  then obtain u where u: "method2 html = Some u"
    by (cases "method2 html") (auto simp: method2_None_iff)
  from method2_longest [OF u] have
    l: "u \<in> set (match_all mp4Regex html 0)" "u \<noteq> []"
       "\<forall>m\<in>set (match_all mp4Regex html 0). length m \<le> length u" by auto
  have x: "extractVideoUrl (JSON_parse E) html = Str u"
    using assms(1) u by (rule extractVideoUrl_method2)
  have f: "GET E (''https://www.loom.com/share/'' @ ident) = Inr html \<and> writeFile E html = None
          \<longrightarrow> fetchLoomDownloadUrl E ident = Inr (Str u)"
    using fetch_found [of E ident html] l(2) by (simp add: x)
  have k: "\<forall>v. is_mp4_link v \<and> occurs_in v html \<longrightarrow> length v \<le> length u"
  proof (intro allI impI)
    fix v
    assume h: "is_mp4_link v \<and> occurs_in v html"
    then obtain pre post where p: "html = pre @ v @ post" unfolding occurs_in_def by blast
    from h have "is_mp4_link v" by simp
    from match_all_covers [OF this, of 0 pre post] obtain m where
      "m \<in> set (match_all mp4Regex html 0)" "length v \<le> length m" unfolding p by auto
    with l(3) show "length v \<le> length u" by (auto intro: order_trans)
  qed
  from l(1) have "is_mp4_link u" by (rule mp4_matches_are_links)
  moreover from l(1) have "occurs_in u html" by (rule match_all_occurs)
  ultimately show ?thesis using x k f by blast
qed

lemma links_page_matches:
  "match_all mp4Regex links_page 0 = [''https://x/a.mp4'', ''https://x/bb.mp4?q=1'']"
  by (simp add: links_page_def match_all.simps regex_defs)

lemma links_page_method1: "method1 (JSON_parse links_env) links_page = Null"
  by (simp add: method1_def links_page_def regex_defs)

lemma links_page_has_link: "has_mp4_link links_page"
proof -
  have "links_page = (''<a href='' @ [dq]) @ ''https://'' @ ''x/a'' @ ''.mp4''
          @ ([dq] @ ''> <a href='' @ quoted ''https://x/bb.mp4?q=1'' @ ''>'')"
    by (simp add: links_page_def quoted_def)
  moreover have "list_all link_char ''x/a''"
    by (simp add: link_char_def dq_def sq_def is_space_def)
  ultimately show ?thesis
    unfolding has_mp4_link_def by blast
qed

text \<open>A page with the links \<^verbatim>\<open>https://x/a.mp4\<close> and \<^verbatim>\<open>https://x/bb.mp4?q=1\<close>.\<close>

theorem longest_mp4_link_witness:
  "\<not> truthy (method1 (JSON_parse links_env) links_page)
   \<and> has_mp4_link links_page
   \<and> match_all mp4Regex links_page 0 = [''https://x/a.mp4'', ''https://x/bb.mp4?q=1'']
   \<and> extractVideoUrl (JSON_parse links_env) links_page = Str ''https://x/bb.mp4?q=1''
   \<and> fetchLoomDownloadUrl links_env ''abc123'' = Inr (Str ''https://x/bb.mp4?q=1'')"
proof -
  have h1: "\<not> truthy (method1 (JSON_parse links_env) links_page)"
    by (simp add: links_page_method1)
  have g: "GET links_env (''https://www.loom.com/share/'' @ ''abc123'') = Inr links_page
           \<and> writeFile links_env links_page = None"
    by (simp add: links_env_def)
  from longest_mp4_link [OF h1 links_page_has_link, of "''abc123''"] obtain u where
    u: "extractVideoUrl (JSON_parse links_env) links_page = Str u"
       "GET links_env (''https://www.loom.com/share/'' @ ''abc123'') = Inr links_page
          \<and> writeFile links_env links_page = None
        \<longrightarrow> fetchLoomDownloadUrl links_env ''abc123'' = Inr (Str u)"
    by blast
  have "extractVideoUrl (JSON_parse links_env) links_page = Str ''https://x/bb.mp4?q=1''"
    by (simp add: extractVideoUrl_def Let_def links_page_method1 method2_def links_page_matches
          longer_def)
  with u(1) have "u = ''https://x/bb.mp4?q=1''" by simp
  with u(1) u(2) g h1 links_page_has_link show ?thesis
    by (simp add: links_page_matches)
qed

lemma para_page_matches: "match_all mp4Regex para_page 0 = [''https://x/a.mp4</p>'']"
  by (simp add: para_page_def match_all.simps regex_defs)

lemma para_page_method1: "method1 p para_page = Null"
  by (simp add: method1_def para_page_def regex_defs)

lemma para_page_has_link: "has_mp4_link para_page"
proof -
  have "para_page = ''<p>'' @ ''https://'' @ ''x/a'' @ ''.mp4'' @ ''</p>''"
    by (simp add: para_page_def)
  moreover have "list_all link_char ''x/a''"
    by (simp add: link_char_def dq_def sq_def is_space_def)
  ultimately show ?thesis
    unfolding has_mp4_link_def by blast
qed

text \<open>
  Claim C9, as stated, fails: this page has no state and one HTTPS text ending in
  \<^verbatim>\<open>.mp4\<close>, inside a paragraph; extraction returns it together with the
  \<^verbatim>\<open></p>\<close> that follows it, a text that does not end in the extension.
\<close>

theorem link_beyond_extension_counterexample:
  "method1 (JSON_parse links_env) para_page = Null
   \<and> has_mp4_link para_page
   \<and> para_page = ''<p>'' @ ''https://x/a.mp4'' @ ''</p>''
   \<and> ends_with ''https://x/a.mp4'' ''.mp4''
   \<and> extractVideoUrl (JSON_parse links_env) para_page = Str ''https://x/a.mp4</p>''
   \<and> \<not> ends_with ''https://x/a.mp4</p>'' ''.mp4''"
proof -
  have "extractVideoUrl (JSON_parse links_env) para_page = Str ''https://x/a.mp4</p>''"
    by (simp add: extractVideoUrl_def Let_def para_page_method1 method2_def para_page_matches)
  moreover have "para_page = ''<p>'' @ ''https://x/a.mp4'' @ ''</p>''"
    by (simp add: para_page_def)
  moreover have "ends_with ''https://x/a.mp4'' ''.mp4''"
    "\<not> ends_with ''https://x/a.mp4</p>'' ''.mp4''"
    by (simp_all add: ends_with_def)
  ultimately show ?thesis
    using para_page_has_link para_page_method1 by blast
qed

text \<open>
  Claim C3. On a page that none of the five methods matches, the extraction step, the
  cascade of source lines 95 to 174, ends with \<open>videoUrl\<close> null: "not found" is a
  value, and no method raises (the parse error of method 1 is caught inside it). The
  caller of the step, the rest of \<^verbatim>\<open>fetchLoomDownloadUrl\<close>, handles that value: it
  asks the old API, returns the URL that answers, and otherwise throws the error
  \<^verbatim>\<open>No video download URL found\<close>.
\<close>

theorem no_strategy_matches:
  assumes "\<not> truthy (method1 (JSON_parse E) html)" and "method2 html = None"
    and "field_value scriptRegex html = None" and "field_value downloadRegex html = None"
    and "field_value videoRegex html = None"
  shows "extractVideoUrl (JSON_parse E) html = Null
         \<and> (GET E (''https://www.loom.com/share/'' @ ident) = Inr html \<and> writeFile E html = None
              \<longrightarrow> fetchLoomDownloadUrl E ident =
                   (case POST E (''https://www.loom.com/api/campaigns/sessions/'' @ ident
                                  @ ''/transcoded-url'') of
                      Inl apiError \<Rightarrow> Inl NoVideoUrlError
                    | Inr data \<Rightarrow>
                        if truthy data \<and> truthy (get_prop data ''url'')
                        then Inr (get_prop data ''url'') else Inl NoVideoUrlError))"
proof (intro conjI impI)
  show x: "extractVideoUrl (JSON_parse E) html = Null"
    using assms by (rule extractVideoUrl_none)
  assume "GET E (''https://www.loom.com/share/'' @ ident) = Inr html \<and> writeFile E html = None"
  then have "GET E (''https://www.loom.com/share/'' @ ident) = Inr html" "writeFile E html = None"
    by simp_all
  then show "fetchLoomDownloadUrl E ident =
      (case POST E (''https://www.loom.com/api/campaigns/sessions/'' @ ident @ ''/transcoded-url'') of
         Inl apiError \<Rightarrow> Inl NoVideoUrlError
       | Inr data \<Rightarrow>
           if truthy data \<and> truthy (get_prop data ''url'')
           then Inr (get_prop data ''url'') else Inl NoVideoUrlError)"
    using x by (rule fetch_not_found)
qed

lemma plain_page_strategies:
  "method1 p plain_page = Null" "method2 plain_page = None"
  "field_value scriptRegex plain_page = None" "field_value downloadRegex plain_page = None"
  "field_value videoRegex plain_page = None"
  by (simp_all add: method1_def method2_def field_value_def match_all.simps plain_page_def regex_defs)

text \<open>A page with nothing to find, the old API answering with a URL.\<close>

theorem no_strategy_matches_witness:
  "\<not> truthy (method1 (JSON_parse old_api_env) plain_page) \<and> method2 plain_page = None
   \<and> field_value scriptRegex plain_page = None \<and> field_value downloadRegex plain_page = None
   \<and> field_value videoRegex plain_page = None
   \<and> extractVideoUrl (JSON_parse old_api_env) plain_page = Null
   \<and> fetchLoomDownloadUrl old_api_env ''abc123'' = Inr (Str ''https://cdn/old.mp4'')"
proof -
  have h1: "\<not> truthy (method1 (JSON_parse old_api_env) plain_page)"
    by (simp add: plain_page_strategies)
  have g: "GET old_api_env (''https://www.loom.com/share/'' @ ''abc123'') = Inr plain_page
           \<and> writeFile old_api_env plain_page = None"
    by (simp add: old_api_env_def)
  have p: "POST old_api_env (''https://www.loom.com/api/campaigns/sessions/'' @ ''abc123''
             @ ''/transcoded-url'') = Inr (Obj [(''url'', Str ''https://cdn/old.mp4'')])"
    by (simp add: old_api_env_def)
  from no_strategy_matches [OF h1 plain_page_strategies(2-5), of "''abc123''"] g p
  show ?thesis
    by (simp add: plain_page_strategies)
qed

text \<open>With the old API failing as well, \<^verbatim>\<open>fetchLoomDownloadUrl\<close> ends with that
  error.\<close>

lemma fetch_throws_without_url:
  "method1 (JSON_parse offline_env) plain_page = Null \<and> method2 plain_page = None
   \<and> field_value scriptRegex plain_page = None \<and> field_value downloadRegex plain_page = None
   \<and> field_value videoRegex plain_page = None
   \<and> extractVideoUrl (JSON_parse offline_env) plain_page = Null
   \<and> GET offline_env (''https://www.loom.com/share/'' @ ''abc123'') = Inr plain_page
   \<and> fetchLoomDownloadUrl offline_env ''abc123'' = Inl NoVideoUrlError"
proof -
  have x: "extractVideoUrl (JSON_parse offline_env) plain_page = Null"
    by (simp add: extractVideoUrl_none plain_page_strategies)
  have "fetchLoomDownloadUrl offline_env ''abc123'' = Inl NoVideoUrlError"
    using x by (simp add: fetchLoomDownloadUrl_def Let_def offline_env_def)
  then show ?thesis
    using x by (simp add: plain_page_strategies) (simp add: offline_env_def)
qed

section \<open>Properties of the worker pool\<close>

lemma indexOf_mem: "x \<in> set xs \<Longrightarrow> 0 \<le> indexOf xs x \<and> nat (indexOf xs x) < length xs \<and> xs ! nat (indexOf xs x) = x"
  by (induction xs) (auto simp: Let_def nat_add_distrib)

lemma indexOf_not_mem: "x \<notin> set xs \<Longrightarrow> indexOf xs x = - 1"
  by (induction xs) (auto simp: Let_def)

lemma take_drop_Suc_remove1:
  "distinct xs \<Longrightarrow> k < length xs \<Longrightarrow> take k xs @ drop (Suc k) xs = remove1 (xs ! k) xs"
proof (induction xs arbitrary: k)
  case Nil
  then show ?case by simp
next
  case (Cons y ys)
  show ?case
  proof (cases k)
    case 0
    then show ?thesis by simp
  next
    case (Suc j)
    with Cons.prems have "j < length ys" "distinct ys" "ys ! j \<noteq> y" by auto
    with Cons.IH [of j] Suc show ?thesis by simp
  qed
qed

lemma splice1_indexOf:
  "distinct xs \<Longrightarrow> x \<in> set xs \<Longrightarrow> splice1 xs (indexOf xs x) = remove1 x xs"
proof -
  assume d: "distinct xs" and m: "x \<in> set xs"
  from indexOf_mem [OF m] have i: "0 \<le> indexOf xs x" "nat (indexOf xs x) < length xs"
    "xs ! nat (indexOf xs x) = x" by auto
  then have "splice1 xs (indexOf xs x) = take (nat (indexOf xs x)) xs @ drop (Suc (nat (indexOf xs x))) xs"
    by (auto simp: splice1_def Let_def min_def)
  with take_drop_Suc_remove1 [OF d i(2)] i(3) show ?thesis by simp
qed

lemma pool_inv_init: "pool_inv poolLimit array (pool_init array w)"
  by (auto simp: pool_inv_def pool_init_def)


lemma pool_invD:
  assumes "pool_inv L A S"
  shows "distinct (map fst (inflight S))" and "distinct (map fst (settled S))"
    and "\<forall>t\<in>set (inflight S). snd t = A ! fst t"
    and "fst ` set (settled S) \<union> fst ` set (inflight S) = {0..<ret S}"
    and "fst ` set (settled S) \<inter> fst ` set (inflight S) = {}"
    and "remaining S = drop (ret S) A" and "ret S \<le> length A"
    and "loop S = Joined \<longrightarrow> remaining S = []"
    and "distinct (executing S)"
    and "\<forall>i\<in>set (executing S). i \<in> fst ` set (inflight S) \<or> (i, False) \<in> set (settled S)"
    and "\<not> L \<le> int (length A) \<longrightarrow> executing S = [] \<and> (loop S = Running \<or> loop S = Joined)"
    and "L \<le> int (length A) \<longrightarrow>
            fst ` set (inflight S) \<subseteq> set (executing S)
            \<and> int (length (executing S)) \<le> max L 1
            \<and> (loop S = Running \<or> loop S = Woken \<longrightarrow> int (length (executing S)) < max L 1)
            \<and> (loop S = Awaiting \<longrightarrow> executing S \<noteq> [] \<and> set (executing S) \<subseteq> fst ` set (inflight S))"
  using assms unfolding pool_inv_def by blast+

lemma inflight_ids_lt: "pool_inv L A S \<Longrightarrow> t \<in> set (inflight S) \<Longrightarrow> fst t < ret S"
proof -
  assume inv: "pool_inv L A S" and t: "t \<in> set (inflight S)"
  note pool_invD(4) [OF inv]
  with t have "fst t \<in> {0..<ret S}" by blast
  then show ?thesis by simp
qed

lemma executing_ids_lt: "pool_inv L A S \<Longrightarrow> i \<in> set (executing S) \<Longrightarrow> i < ret S"
proof -
  assume inv: "pool_inv L A S" and i: "i \<in> set (executing S)"
  note u = pool_invD(4) [OF inv] and e = pool_invD(10) [OF inv]
  from e i have "i \<in> fst ` set (inflight S) \<or> i \<in> fst ` set (settled S)"
    by (metis fst_conv imageI)
  then have "i \<in> {0..<ret S}" unfolding u [symmetric] by blast
  then show ?thesis by simp
qed

lemma pool_inv_Iterate:
  assumes inv: "pool_inv L A S" and st: "pool_step L A f Iterate S = Some S'"
  shows "pool_inv L A S'"
proof -
  from st obtain item items where r: "remaining S = item # items" and run: "loop S = Running"
    by (auto split: list.splits if_splits)
  note d1 = pool_invD(1) [OF inv] and d2 = pool_invD(2) [OF inv] and it = pool_invD(3) [OF inv]
    and un = pool_invD(4) [OF inv] and dj = pool_invD(5) [OF inv] and rm = pool_invD(6) [OF inv]
    and le = pool_invD(7) [OF inv] and jn = pool_invD(8) [OF inv] and d3 = pool_invD(9) [OF inv]
    and ex = pool_invD(10) [OF inv] and ut = pool_invD(11) [OF inv] and tr = pool_invD(12) [OF inv]
  from r rm have lt: "ret S < length A" by (cases "ret S < length A") auto
  with r rm have item: "item = A ! ret S" and items: "items = drop (Suc (ret S)) A"
    by (simp_all add: Cons_nth_drop_Suc [symmetric])
  have fresh1: "ret S \<notin> fst ` set (inflight S)" and fresh2: "ret S \<notin> fst ` set (settled S)"
    using un by auto
  have fresh3: "ret S \<notin> set (executing S)"
    using executing_ids_lt [OF inv] by auto
  have un': "fst ` set (settled S) \<union> fst ` set (inflight S @ [(ret S, item)]) = {0..<Suc (ret S)}"
    using un by auto
  have dj': "fst ` set (settled S) \<inter> fst ` set (inflight S @ [(ret S, item)]) = {}"
    using dj fresh2 by auto
  have d1': "distinct (map fst (inflight S @ [(ret S, item)]))"
    using d1 fresh1 by simp
  have it': "\<forall>t\<in>set (inflight S @ [(ret S, item)]). snd t = A ! fst t"
    using it item by auto
  show ?thesis
  proof (cases "L \<le> int (length A)")
    case False
    with st r run have S': "S' = S\<lparr>remaining := items, ret := Suc (ret S),
        inflight := inflight S @ [(ret S, item)]\<rparr>"
      by (simp add: Let_def)
    show ?thesis
      unfolding pool_inv_def S'
      using False d1' d2 it' un' dj' items lt d3 ut run by auto
  next
    case True
    let ?ex = "executing S @ [ret S]"
    from tr True run have sub: "fst ` set (inflight S) \<subseteq> set (executing S)"
      and len: "int (length (executing S)) < max L 1" by auto
    have d3': "distinct ?ex" using d3 fresh3 by simp
    have sub': "fst ` set (inflight S @ [(ret S, item)]) \<subseteq> set ?ex" using sub by auto
    have ex': "\<forall>i\<in>set ?ex. i \<in> fst ` set (inflight S @ [(ret S, item)]) \<or> (i, False) \<in> set (settled S)"
      using ex by auto
    have len': "int (length ?ex) \<le> max L 1" using len by simp
    show ?thesis
    proof (cases "L \<le> int (length ?ex)")
      case False
      with st r run True have S': "S' = S\<lparr>remaining := items, ret := Suc (ret S),
          inflight := inflight S @ [(ret S, item)], executing := ?ex\<rparr>"
        by (simp add: Let_def)
      from False have "int (length ?ex) < max L 1" by simp
      then show ?thesis
        unfolding pool_inv_def S'
        using True d1' d2 it' un' dj' items lt d3' ex' sub' len' run by simp
    next
      case full: True
      let ?lp = "if \<exists>e\<in>set ?ex. (e, False) \<in> set (settled S) then Failing else Awaiting"
      from full st r run True have S': "S' = S\<lparr>remaining := items, ret := Suc (ret S),
          inflight := inflight S @ [(ret S, item)], executing := ?ex, loop := ?lp\<rparr>"
        by (simp add: Let_def)
      have aw: "?lp = Awaiting \<longrightarrow> ?ex \<noteq> [] \<and> set ?ex \<subseteq> fst ` set (inflight S @ [(ret S, item)])"
      proof (intro impI conjI)
        show "?ex \<noteq> []" by simp
        assume "?lp = Awaiting"
        then have "\<not> (\<exists>e\<in>set ?ex. (e, False) \<in> set (settled S))"
          by (simp split: if_splits)
        with ex' show "set ?ex \<subseteq> fst ` set (inflight S @ [(ret S, item)])" by blast
      qed
      have nj: "?lp \<noteq> Joined" "?lp \<noteq> Running" "?lp \<noteq> Woken" by simp_all
      show ?thesis
        unfolding pool_inv_def S'
        using True d1' d2 it' un' dj' items lt d3' ex' sub' len' aw nj by simp
    qed
  qed
qed


lemma map_of_inflight:
  "distinct (map fst xs) \<Longrightarrow> map_of xs i = Some x \<Longrightarrow>
     (i, x) \<in> set xs \<and> fst ` set (filter (\<lambda>t. fst t \<noteq> i) xs) = fst ` set xs - {i}
     \<and> length (filter (\<lambda>t. fst t \<noteq> i) xs) < length xs"
proof -
  assume d: "distinct (map fst xs)" and m: "map_of xs i = Some x"
  from m have mem: "(i, x) \<in> set xs" by (rule map_of_SomeD)
  have "fst ` set (filter (\<lambda>t. fst t \<noteq> i) xs) = fst ` set xs - {i}" by auto
  moreover have "length (filter (\<lambda>t. fst t \<noteq> i) xs) < length xs"
    using mem by (intro length_filter_less [of "(i, x)"]) simp_all
  ultimately show ?thesis using mem by simp
qed

lemma pool_inv_Settle:
  assumes inv: "pool_inv L A S" and st: "pool_step L A f (Settle i) S = Some S'"
  shows "pool_inv L A S'"
proof -
  from st obtain item where m: "map_of (inflight S) i = Some item"
    by (auto split: option.splits)
  obtain res w where f: "f item A (shared S) = (res, w)" by (cases "f item A (shared S)") auto
  note d1 = pool_invD(1) [OF inv] and d2 = pool_invD(2) [OF inv] and it = pool_invD(3) [OF inv]
    and un = pool_invD(4) [OF inv] and dj = pool_invD(5) [OF inv] and rm = pool_invD(6) [OF inv]
    and le = pool_invD(7) [OF inv] and jn = pool_invD(8) [OF inv] and d3 = pool_invD(9) [OF inv]
    and ex = pool_invD(10) [OF inv] and ut = pool_invD(11) [OF inv] and tr = pool_invD(12) [OF inv]
  let ?fl = "filter (\<lambda>t. fst t \<noteq> i) (inflight S)"
  from map_of_inflight [OF d1 m] have mem: "(i, item) \<in> set (inflight S)"
    and ids: "fst ` set ?fl = fst ` set (inflight S) - {i}" by auto
  from mem have iin: "i \<in> fst ` set (inflight S)" by (metis fst_conv imageI)
  with dj have inot: "i \<notin> fst ` set (settled S)" by blast
  have d1': "distinct (map fst ?fl)" using d1 by (simp add: distinct_map_filter)
  have it': "\<forall>t\<in>set ?fl. snd t = A ! fst t" using it by simp
  have d2': "distinct (map fst (settled S @ [(i, b)]))" for b using d2 inot by simp
  have un': "fst ` set (settled S @ [(i, b)]) \<union> fst ` set ?fl = {0..<ret S}" for b
    unfolding ids using un iin by auto
  have dj': "fst ` set (settled S @ [(i, b)]) \<inter> fst ` set ?fl = {}" for b
    unfolding ids using dj by auto
  show ?thesis
  proof (cases res)
    case (Inr u)
    have ex1: "\<forall>j\<in>set (remove1 i (executing S)).
        j \<in> fst ` set ?fl \<or> (j, False) \<in> set (settled S @ [(i, True)])"
      unfolding ids using ex d3 by auto
    show ?thesis
    proof (cases "L \<le> int (length A)")
      case False
      with st m f Inr have S': "S' = S\<lparr>inflight := ?fl, settled := settled S @ [(i, True)],
          shared := w\<rparr>"
        by (simp add: Let_def)
      show ?thesis
        unfolding pool_inv_def S'
        using False d1' d2' it' un' dj' rm le jn d3 ut by simp
    next
      case True
      from tr True have sub: "fst ` set (inflight S) \<subseteq> set (executing S)"
        and len: "int (length (executing S)) \<le> max L 1"
        and len2: "loop S = Running \<or> loop S = Woken \<longrightarrow> int (length (executing S)) < max L 1"
        by auto
      from sub iin have iex: "i \<in> set (executing S)" by blast
      have sp: "splice1 (executing S) (indexOf (executing S) i) = remove1 i (executing S)"
        using d3 iex by (rule splice1_indexOf)
      let ?lp = "if loop S = Awaiting then Woken else loop S"
      from True st m f Inr have S': "S' = S\<lparr>inflight := ?fl, settled := settled S @ [(i, True)],
          shared := w, executing := remove1 i (executing S), loop := ?lp\<rparr>"
        by (simp add: Let_def sp)
      have d3': "distinct (remove1 i (executing S))" using d3 by simp
      have sub': "fst ` set ?fl \<subseteq> set (remove1 i (executing S))"
        unfolding ids using sub d3 by auto
      have l1: "length (remove1 i (executing S)) = length (executing S) - 1"
        using iex by (simp add: length_remove1)
      have l0: "0 < length (executing S)" using iex by (cases "executing S") auto
      have len': "int (length (remove1 i (executing S))) < max L 1"
        using len l1 l0 by simp
      have jn': "?lp = Joined \<longrightarrow> remaining S = []" using jn by simp
      have na: "?lp \<noteq> Awaiting" by simp
      show ?thesis
        unfolding pool_inv_def S'
        using True d1' d2' it' un' dj' rm le jn' d3' ex1 sub' len' na by simp
    qed
  next
    case (Inl err)
    have ex2: "\<forall>j\<in>set (executing S). j \<in> fst ` set ?fl \<or> (j, False) \<in> set (settled S @ [(i, False)])"
      unfolding ids using ex by auto
    show ?thesis
    proof (cases "L \<le> int (length A)")
      case False
      with st m f Inl have S': "S' = S\<lparr>inflight := ?fl, settled := settled S @ [(i, False)],
          shared := w\<rparr>"
        by (simp add: Let_def)
      show ?thesis
        unfolding pool_inv_def S'
        using False d1' d2' it' un' dj' rm le jn d3 ut by simp
    next
      case True
      from tr True have sub: "fst ` set (inflight S) \<subseteq> set (executing S)"
        and len: "int (length (executing S)) \<le> max L 1"
        and len2: "loop S = Running \<or> loop S = Woken \<longrightarrow> int (length (executing S)) < max L 1"
        by auto
      let ?lp = "if loop S = Awaiting then Failing else loop S"
      from True st m f Inl have S': "S' = S\<lparr>inflight := ?fl, settled := settled S @ [(i, False)],
          shared := w, loop := ?lp\<rparr>"
        by (simp add: Let_def)
      have sub': "fst ` set ?fl \<subseteq> set (executing S)" unfolding ids using sub by auto
      have jn': "?lp = Joined \<longrightarrow> remaining S = []" using jn by simp
      have na: "?lp \<noteq> Awaiting" by simp
      have len2': "?lp = Running \<or> ?lp = Woken \<longrightarrow> int (length (executing S)) < max L 1"
        using len2 by simp
      show ?thesis
        unfolding pool_inv_def S'
        using True d1' d2' it' un' dj' rm le jn' d3 ex2 sub' len len2' na by simp
    qed
  qed
qed


lemma pool_inv_Resume:
  assumes inv: "pool_inv L A S" and st: "pool_step L A f Resume S = Some S'"
  shows "pool_inv L A S'"
proof -
  note tr = pool_invD(12) [OF inv]
  from st have "(loop S = Woken \<and> S' = S\<lparr>loop := Running\<rparr>)
                \<or> (loop S = Failing \<and> S' = S\<lparr>loop := Thrown\<rparr>)"
    by (auto split: if_splits)
  then show ?thesis
  proof
    assume a: "loop S = Woken \<and> S' = S\<lparr>loop := Running\<rparr>"
    with tr have "L \<le> int (length A) \<longrightarrow> int (length (executing S)) < max L 1" by simp
    with inv a show ?thesis by (simp add: pool_inv_def)
  next
    assume a: "loop S = Failing \<and> S' = S\<lparr>loop := Thrown\<rparr>"
    with inv show ?thesis by (simp add: pool_inv_def)
  qed
qed

lemma pool_inv_Return:
  assumes inv: "pool_inv L A S" and st: "pool_step L A f Return S = Some S'"
  shows "pool_inv L A S'"
proof -
  from st have a: "loop S = Running" "remaining S = []" "S' = S\<lparr>loop := Joined\<rparr>"
    by (auto split: if_splits)
  with inv show ?thesis by (simp add: pool_inv_def)
qed

lemma pool_inv_step:
  "pool_inv L A S \<Longrightarrow> pool_step L A f x S = Some S' \<Longrightarrow> pool_inv L A S'"
  by (cases x) (blast intro: pool_inv_Iterate pool_inv_Settle pool_inv_Resume pool_inv_Return)+

lemma pool_inv_run:
  "pool_inv L A S \<Longrightarrow> pool_run L A f xs S = Some S' \<Longrightarrow> pool_inv L A S'"
proof (induction xs arbitrary: S)
  case Nil
  then show ?case by simp
next
  case (Cons x xs)
  from Cons.prems(2) obtain S1 where s1: "pool_step L A f x S = Some S1"
    and r: "pool_run L A f xs S1 = Some S'"
    by (auto split: option.splits)
  from pool_inv_step [OF Cons.prems(1) s1] have "pool_inv L A S1" .
  from Cons.IH [OF this r] show ?case .
qed

lemma pool_inv_inflight_bound:
  assumes inv: "pool_inv L A S"
  shows "int (length (inflight S)) \<le> max L 1" and "0 < L \<Longrightarrow> int (length (inflight S)) \<le> L"
proof -
  note d1 = pool_invD(1) [OF inv] and un = pool_invD(4) [OF inv] and le = pool_invD(7) [OF inv]
    and d3 = pool_invD(9) [OF inv] and tr = pool_invD(12) [OF inv]
  have l: "length (inflight S) = card (fst ` set (inflight S))"
    using d1 by (metis distinct_card length_map set_map)
  show b: "int (length (inflight S)) \<le> max L 1"
  proof (cases "L \<le> int (length A)")
    case True
    with tr have sub: "fst ` set (inflight S) \<subseteq> set (executing S)"
      and len: "int (length (executing S)) \<le> max L 1" by auto
    from sub have "card (fst ` set (inflight S)) \<le> card (set (executing S))"
      by (intro card_mono) simp_all
    also have "\<dots> = length (executing S)" using d3 by (rule distinct_card)
    finally show ?thesis using l len by simp
  next
    case False
    have "fst ` set (inflight S) \<subseteq> {0..<ret S}" using un by blast
    then have "card (fst ` set (inflight S)) \<le> card {0..<ret S}"
      by (intro card_mono) simp_all
    with l le False show ?thesis by simp
  qed
  assume "0 < L"
  with b show "int (length (inflight S)) \<le> L" by simp
qed

lemma list_urls_run_inv:
  "downloadFromList E a fileContent w steps = Some S \<Longrightarrow>
     pool_inv concurrencyLimit (list_urls w fileContent) S"
  unfolding downloadFromList_def asyncPool_def Let_def
  by (rule pool_inv_run [OF pool_inv_init])

text \<open>
  Claim C7. In every state that a run of \<^verbatim>\<open>asyncPool\<close> reaches, for every positive limit,
  every array and every iterator, the number of tasks in flight is at most the limit; in
  every state that a run of \<^verbatim>\<open>downloadFromList\<close> reaches it is at most 5, the
  concurrency limit of the batch.
\<close>

theorem inflight_never_exceeds_limit:
  "(0 < poolLimit \<and> asyncPool poolLimit array iteratorFn w steps = Some S
      \<longrightarrow> int (length (inflight S)) \<le> poolLimit)
   \<and> (downloadFromList E a fileContent w0 steps' = Some S' \<longrightarrow> length (inflight S') \<le> 5)"
proof (intro conjI impI)
  assume a: "0 < poolLimit \<and> asyncPool poolLimit array iteratorFn w steps = Some S"
  then have r: "pool_run poolLimit array iteratorFn steps (pool_init array w) = Some S"
    by (simp add: asyncPool_def)
  have "pool_inv poolLimit array S"
    by (rule pool_inv_run [OF pool_inv_init r])
  from pool_inv_inflight_bound(2) [OF this] a show "int (length (inflight S)) \<le> poolLimit"
    by simp
next
  assume "downloadFromList E a fileContent w0 steps' = Some S'"
  from pool_inv_inflight_bound(2) [OF list_urls_run_inv [OF this]]
  show "length (inflight S') \<le> 5" by (simp add: concurrencyLimit_def)
qed

section \<open>Properties of the batch\<close>

lemma backoff_trace_indep:
  "fst (backoff r fn d (s, tr)) = fst (backoff r fn d (s, []))
   \<and> fst (snd (backoff r fn d (s, tr))) = fst (snd (backoff r fn d (s, [])))
   \<and> snd (snd (backoff r fn d (s, tr))) = tr @ snd (snd (backoff r fn d (s, [])))"
proof (induction "nat r" arbitrary: r d s tr)
  case 0
  then have nc: "\<not> 1 < r" by simp
  obtain res s' where f: "fn s = (res, s')" by (cases "fn s") auto
  from nc have "backoff r fn d (s, tr) = (res, s', tr @ [Attempt])" for tr
    by (subst backoff.simps) (auto simp: f split: sum.splits)
  then show ?case by simp
next
  case (Suc n)
  obtain res s' where f: "fn s = (res, s')" by (cases "fn s") auto
  show ?case
  proof (cases "\<exists>err. res = Inl err \<and> 1 < r \<and> d \<le> 32000")
    case True
    then obtain err where res: "res = Inl err" and c: "1 < r \<and> d \<le> 32000" by blast
    have u: "backoff r fn d (s, tr)
        = backoff (r - 1) fn (d * 2) (s', tr @ [Attempt, Sleep d])" for tr
      by (subst backoff.simps) (simp add: f res c)
    from Suc.hyps(2) have n: "n = nat (r - 1)" by simp
    from Suc.hyps(1) [OF n, of "d * 2" s' "tr @ [Attempt, Sleep d]"]
         Suc.hyps(1) [OF n, of "d * 2" s' "[Attempt, Sleep d]"]
    show ?thesis by (simp add: u)
  next
    case False
    then have "backoff r fn d (s, tr) = (res, s', tr @ [Attempt])" for tr
      by (subst backoff.simps) (auto simp: f split: sum.splits)
    then show ?thesis by simp
  qed
qed

lemma downloadTask_fulfils: "fst (downloadTask E a urls dir url w) = Inr ()"
  by (auto simp: downloadTask_def extractId_eq Let_def split: sum.splits prod.splits)

lemma downloadTask_log:
  "log_text (snd (downloadTask E a urls dir url w)) =
     log_text w @ (if task_succeeds E a urls dir url then url @ [CHR 0x0A] else [])"
proof -
  have bi: "fst (backoff_default 5 fn (0, trace w)) = fst (backoff_default 5 fn (0::nat, []))" for fn :: "nat \<Rightarrow> (error + unit) \<times> nat"
    using backoff_trace_indep [of 5 fn 1000 0 "trace w"] by (simp add: backoff_default_def)
  show ?thesis
    by (auto simp: downloadTask_def task_succeeds_def download_succeeds_def extractId_eq Let_def
          appendToLogFile_def delay_def log_text_def bi [symmetric]
        split: sum.splits prod.splits option.splits)
qed


lemma no_reject_step:
  assumes ful: "\<And>x A w. fst (f x A w) = Inr ()"
    and nr: "no_reject S" and st: "pool_step L A f x S = Some S'"
  shows "no_reject S'"
proof (cases x)
  case Iterate
  from nr have "\<not> (\<exists>e\<in>set (executing S @ [ret S]). (e, False) \<in> set (settled S))"
    by (auto simp: no_reject_def list_all_iff)
  with st nr Iterate show ?thesis
    by (auto simp: no_reject_def Let_def split: list.splits if_splits)
next
  case (Settle i)
  from st Settle obtain item where m: "map_of (inflight S) i = Some item"
    by (auto split: option.splits)
  obtain w where f: "f item A (shared S) = (Inr (), w)"
    using ful [of item A "shared S"] by (cases "f item A (shared S)") auto
  from st nr Settle m f show ?thesis
    by (auto simp: no_reject_def Let_def split: if_splits)
next
  case Resume
  with st nr show ?thesis by (auto simp: no_reject_def split: if_splits)
next
  case Return
  with st nr show ?thesis by (auto simp: no_reject_def split: if_splits)
qed

lemma no_reject_run:
  assumes ful: "\<And>x A w. fst (f x A w) = Inr ()"
  shows "no_reject S \<Longrightarrow> pool_run L A f xs S = Some S' \<Longrightarrow> no_reject S'"
proof (induction xs arbitrary: S)
  case Nil
  then show ?case by simp
next
  case (Cons x xs)
  from Cons.prems(2) obtain S1 where s1: "pool_step L A f x S = Some S1"
    and r: "pool_run L A f xs S1 = Some S'"
    by (auto split: option.splits)
  from no_reject_step [OF ful Cons.prems(1) s1] have "no_reject S1" .
  from Cons.IH [OF this r] show ?case .
qed

lemma no_reject_init: "no_reject (pool_init A w)"
  by (simp add: no_reject_def pool_init_def)

lemma pool_progress:
  assumes inv: "pool_inv L A S" and nf: "\<not> finished S"
  shows "\<exists>x. pool_step L A f x S \<noteq> None"
proof (cases "inflight S")
  case (Cons t ts)
  obtain i item where t: "t = (i, item)" by (cases t) auto
  have "map_of (inflight S) i = Some item" by (simp add: Cons t)
  then have "pool_step L A f (Settle i) S \<noteq> None"
    by (auto simp: Let_def split: prod.splits sum.splits)
  then show ?thesis by blast
next
  case Nil
  note ut = pool_invD(11) [OF inv] and tr = pool_invD(12) [OF inv]
  from Nil tr ut have na: "loop S \<noteq> Awaiting" by (cases "L \<le> int (length A)") auto
  show ?thesis
  proof (cases "loop S")
    case Running
    show ?thesis
    proof (cases "remaining S")
      case Nil
      with Running have "pool_step L A f Return S \<noteq> None" by simp
      then show ?thesis by blast
    next
      case (Cons y ys)
      with Running have "pool_step L A f Iterate S \<noteq> None" by (simp add: Let_def)
      then show ?thesis by blast
    qed
  next
    case Awaiting
    with na show ?thesis by simp
  next
    case Woken
    then have "pool_step L A f Resume S \<noteq> None" by simp
    then show ?thesis by blast
  next
    case Failing
    then have "pool_step L A f Resume S \<noteq> None" by simp
    then show ?thesis by blast
  next
    case Thrown
    with Nil nf show ?thesis by (simp add: finished_def)
  next
    case Joined
    with Nil nf show ?thesis by (simp add: finished_def)
  qed
qed

lemma pool_measure_step:
  assumes st: "pool_step L A f x S = Some S'"
  shows "pool_measure S' < pool_measure S"
proof (cases x)
  case Iterate
  with st show ?thesis
    by (auto simp: pool_measure_def Let_def split: list.splits if_splits)
next
  case (Settle i)
  from st Settle obtain item where m: "map_of (inflight S) i = Some item"
    by (auto split: option.splits)
  then have "(i, item) \<in> set (inflight S)" by (rule map_of_SomeD)
  then have l: "length (filter (\<lambda>t. fst t \<noteq> i) (inflight S)) < length (inflight S)"
    by (intro length_filter_less [of "(i, item)"]) simp_all
  obtain res w where f: "f item A (shared S) = (res, w)" by (cases "f item A (shared S)") auto
  from st Settle m f l show ?thesis
    by (cases res; cases "loop S")
       (auto simp: pool_measure_def Let_def split: if_splits)
next
  case Resume
  with st show ?thesis by (auto simp: pool_measure_def split: if_splits)
next
  case Return
  with st show ?thesis by (auto simp: pool_measure_def split: if_splits)
qed

lemma pool_measure_run:
  "pool_run L A f xs S = Some S' \<Longrightarrow> length xs + pool_measure S' \<le> pool_measure S"
proof (induction xs arbitrary: S)
  case Nil
  then show ?case by simp
next
  case (Cons x xs)
  from Cons.prems obtain S1 where s1: "pool_step L A f x S = Some S1"
    and r: "pool_run L A f xs S1 = Some S'"
    by (auto split: option.splits)
  from pool_measure_step [OF s1] Cons.IH [OF r] show ?case by simp
qed

lemma pool_measure_init: "pool_measure (pool_init A w) = 4 * length A + 1"
  by (simp add: pool_measure_def pool_init_def)


lemma log_lines_append: "log_lines (xs @ ys) = log_lines xs @ log_lines ys"
  by (simp add: log_lines_def)

lemma gained_snoc:
  "gained ok A (done @ [(i, b)]) = gained ok A done @ (if ok (A ! i) then [A ! i] else [])"
  by (simp add: gained_def)

lemma pool_log_step:
  assumes eff: "\<And>x A w. log_text (snd (g x A w)) = log_text w @ (if ok x then x @ [CHR 0x0A] else [])"
    and inv: "pool_inv L A S"
    and lg: "log_text (shared S) = base @ log_lines (gained ok A (settled S))"
    and st: "pool_step L A g x S = Some S'"
  shows "log_text (shared S') = base @ log_lines (gained ok A (settled S'))"
proof (cases x)
  case Iterate
  with st lg show ?thesis
    by (auto simp: Let_def split: list.splits if_splits)
next
  case (Settle i)
  from st Settle obtain item where m: "map_of (inflight S) i = Some item"
    by (auto split: option.splits)
  then have "(i, item) \<in> set (inflight S)" by (rule map_of_SomeD)
  with pool_invD(3) [OF inv] have item: "item = A ! i" by auto
  obtain res w where f: "g item A (shared S) = (res, w)" by (cases "g item A (shared S)") auto
  from eff [of item A "shared S"] f
  have w: "log_text w = log_text (shared S) @ (if ok item then item @ [CHR 0x0A] else [])"
    by simp
  from st Settle m f have "shared S' = w \<and> (\<exists>b. settled S' = settled S @ [(i, b)])"
    by (cases res) (auto simp: Let_def split: if_splits)
  then obtain b where "shared S' = w" "settled S' = settled S @ [(i, b)]" by blast
  then show ?thesis
    by (simp add: w lg gained_snoc log_lines_append item log_lines_def)
next
  case Resume
  with st lg show ?thesis by (auto split: if_splits)
next
  case Return
  with st lg show ?thesis by (auto split: if_splits)
qed

lemma pool_log_run:
  assumes eff: "\<And>x A w. log_text (snd (g x A w)) = log_text w @ (if ok x then x @ [CHR 0x0A] else [])"
  shows "pool_inv L A S \<Longrightarrow> log_text (shared S) = base @ log_lines (gained ok A (settled S))
         \<Longrightarrow> pool_run L A g xs S = Some S'
         \<Longrightarrow> log_text (shared S') = base @ log_lines (gained ok A (settled S'))"
proof (induction xs arbitrary: S)
  case Nil
  then show ?case by simp
next
  case (Cons x xs)
  from Cons.prems(3) obtain S1 where s1: "pool_step L A g x S = Some S1"
    and r: "pool_run L A g xs S1 = Some S'"
    by (auto split: option.splits)
  from pool_inv_step [OF Cons.prems(1) s1] have i1: "pool_inv L A S1" .
  from pool_log_step [OF eff Cons.prems(1) Cons.prems(2) s1]
  have l1: "log_text (shared S1) = base @ log_lines (gained ok A (settled S1))" .
  from Cons.IH [OF i1 l1 r] show ?case .
qed

lemma finished_all_settled:
  assumes inv: "pool_inv L A S" and nr: "no_reject S" and fin: "finished S"
  shows "mset (map fst (settled S)) = mset [0..<length A]"
    and "mset (gained ok A (settled S)) = mset (filter ok A)"
proof -
  from fin nr have j: "loop S = Joined" and e: "inflight S = []"
    by (auto simp: finished_def no_reject_def)
  from pool_invD(8) [OF inv] j have "remaining S = []" by simp
  with pool_invD(6) [OF inv] pool_invD(7) [OF inv] have r: "ret S = length A" by simp
  from pool_invD(4) [OF inv] e r have se: "set (map fst (settled S)) = set [0..<length A]"
    by simp
  from set_eq_iff_mset_eq_distinct [OF pool_invD(2) [OF inv] distinct_upt, of 0 "length A"] se
  show m: "mset (map fst (settled S)) = mset [0..<length A]"
    by blast
  have "map (\<lambda>t. A ! fst t) (settled S) = map (\<lambda>i. A ! i) (map fst (settled S))"
    by simp
  then have "mset (map (\<lambda>t. A ! fst t) (settled S)) = image_mset (\<lambda>i. A ! i) (mset (map fst (settled S)))"
    by (simp only: mset_map)
  also have "\<dots> = image_mset (\<lambda>i. A ! i) (mset [0..<length A])"
    by (simp only: m)
  also have "\<dots> = mset (map (\<lambda>i. A ! i) [0..<length A])"
    by (simp only: mset_map)
  also have "\<dots> = mset A" by (simp add: map_nth)
  finally have eq: "mset (map (\<lambda>t. A ! fst t) (settled S)) = mset A" .
  have "mset (filter ok (map (\<lambda>t. A ! fst t) (settled S)))
      = filter_mset ok (mset (map (\<lambda>t. A ! fst t) (settled S)))"
    by (rule mset_filter)
  also have "\<dots> = filter_mset ok (mset A)" by (simp only: eq)
  also have "\<dots> = mset (filter ok A)" by (rule mset_filter [symmetric])
  finally show "mset (gained ok A (settled S)) = mset (filter ok A)"
    by (simp only: gained_def)
qed

lemma demo_env_simps:
  "downloadLoomVideo demo_env url outputPath k =
     (if outputPath = ''/app/Downloads/v1.mp4'' \<or> outputPath = ''/app/Downloads/v3.mp4''
      then Inl (Failure ''403'') else Inr ())"
  "appendFile demo_env text = None"
  "path_join demo_env dir name = dir @ ''/'' @ name"
  "path_resolve demo_env p = p"
  "dirname demo_env = ''/app''"
  "GET demo_env u = Inr links_page"
  "writeFile demo_env d = None"
  "JSON_parse demo_env = (\<lambda>text. None)"
  "argv_prefix demo_argv = None"
  "argv_out demo_argv = None"
  "argv_timeout demo_argv = Some 1000"
  by (simp_all add: demo_env_def demo_argv_def)

lemmas task_defs = downloadTask_def list_task_def outputDirectory_def task_output_path_def
  attempt_def id_text_def given_def appendToLogFile_def delay_def log_text_def
  backoff_default_def backoff.simps extractId_def pop_def demo_env_simps

lemma links_page_url: "extractVideoUrl (\<lambda>text. None) links_page = Str ''https://x/bb.mp4?q=1''"
proof -
  have "method1 (\<lambda>text. None) links_page = Null"
    by (simp add: method1_def links_page_def regex_defs)
  moreover have "method2 links_page = Some ''https://x/bb.mp4?q=1''"
    by (simp add: method2_def links_page_def match_all.simps regex_defs longer_def)
  ultimately show ?thesis by (simp add: extractVideoUrl_def)
qed

lemma demo_fetch: "fetchLoomDownloadUrl demo_env ident = Inr (Str ''https://x/bb.mp4?q=1'')"
  by (simp add: fetchLoomDownloadUrl_def demo_env_simps links_page_url)

lemma demo_task_ok:
  "url \<in> {''s/v2'', ''s/v4'', ''s/v5''} \<Longrightarrow>
   list_task demo_env demo_argv urls url array w =
     (Inr (), \<lparr>log_file = Some (log_text w @ url @ [CHR 0x0A]),
               trace = trace w @ [Attempt, Sleep 5000]\<rparr>)"
  by (auto simp: task_defs demo_fetch)

lemma demo_task_fails:
  "url \<in> {''s/v1'', ''s/v3''} \<Longrightarrow>
   list_task demo_env demo_argv urls url array w =
     (Inr (), w\<lparr>trace := trace w @ [Attempt, Sleep 1000, Attempt, Sleep 2000, Attempt,
                                      Sleep 4000, Attempt, Sleep 8000, Attempt]\<rparr>)"
  by (auto simp: task_defs demo_fetch)

lemma demo_run:
  "pool_run 2 demo_urls (list_task demo_env demo_argv demo_urls) demo_steps
     (pool_init demo_urls empty_world) = Some demo_final"
  by (simp add: demo_urls_def demo_steps_def demo_final_def pool_init_def empty_world_def
        demo_task_ok demo_task_fails splice1_def log_text_def log_lines_def Let_def)


lemma list_task_fulfils: "fst (list_task E a urls url array w) = Inr ()"
  by (simp add: list_task_def downloadTask_fulfils)

lemma list_task_log:
  "log_text (snd (list_task E a urls url array w)) =
     log_text w @ (if task_succeeds E a urls (outputDirectory E a) url then url @ [CHR 0x0A] else [])"
  by (simp only: list_task_def downloadTask_log)

lemma batch_pool:
  assumes run: "pool_run poolLimit urls (list_task E a urls) steps (pool_init urls w) = Some S"
  shows "no_reject S"
    and "length steps \<le> 4 * length urls + 1"
    and "\<not> finished S \<longrightarrow> (\<exists>x. pool_step poolLimit urls (list_task E a urls) x S \<noteq> None)"
    and "log_text (shared S) = log_text w @
           log_lines (gained (task_succeeds E a urls (outputDirectory E a)) urls (settled S))"
    and "finished S \<longrightarrow>
           mset (map fst (settled S)) = mset [0..<length urls]
           \<and> mset (gained (task_succeeds E a urls (outputDirectory E a)) urls (settled S))
               = mset (filter (task_succeeds E a urls (outputDirectory E a)) urls)"
proof -
  have inv: "pool_inv poolLimit urls S"
    by (rule pool_inv_run [OF pool_inv_init run])
  show nr: "no_reject S"
    by (rule no_reject_run [OF list_task_fulfils no_reject_init run])
  from pool_measure_run [OF run] show "length steps \<le> 4 * length urls + 1"
    by (simp add: pool_measure_init)
  show "\<not> finished S \<longrightarrow> (\<exists>x. pool_step poolLimit urls (list_task E a urls) x S \<noteq> None)"
    using pool_progress [OF inv] by blast
  have l0: "log_text (shared (pool_init urls w)) = log_text w @
      log_lines (gained (task_succeeds E a urls (outputDirectory E a)) urls (settled (pool_init urls w)))"
    by (simp add: pool_init_def gained_def log_lines_def)
  show "log_text (shared S) = log_text w @
           log_lines (gained (task_succeeds E a urls (outputDirectory E a)) urls (settled S))"
    by (rule pool_log_run [where g = "list_task E a urls", OF list_task_log pool_inv_init l0 run])
  show "finished S \<longrightarrow>
           mset (map fst (settled S)) = mset [0..<length urls]
           \<and> mset (gained (task_succeeds E a urls (outputDirectory E a)) urls (settled S))
               = mset (filter (task_succeeds E a urls (outputDirectory E a)) urls)"
    using finished_all_settled [OF inv nr] by blast
qed







lemma list_urls_not_logged: "u \<in> readDownloadedLog w \<Longrightarrow> u \<notin> set (list_urls w fileContent)"
  by (simp add: list_urls_def)

lemma pool_items_of_array:
  assumes inv: "pool_inv L A S"
  shows "\<forall>t\<in>set (inflight S). snd t \<in> set A" and "\<forall>t\<in>set (settled S). A ! fst t \<in> set A"
    and "set (remaining S) \<subseteq> set A"
proof -
  note it = pool_invD(3) [OF inv] and un = pool_invD(4) [OF inv] and rm = pool_invD(6) [OF inv]
    and le = pool_invD(7) [OF inv]
  have lt: "i \<in> fst ` set (settled S) \<union> fst ` set (inflight S) \<Longrightarrow> i < length A" for i
    using le unfolding un by simp
  show "\<forall>t\<in>set (inflight S). snd t \<in> set A"
  proof
    fix t assume t: "t \<in> set (inflight S)"
    then have "fst t < length A" by (intro lt) simp
    with it t show "snd t \<in> set A" by simp
  qed
  show "\<forall>t\<in>set (settled S). A ! fst t \<in> set A"
  proof
    fix t assume t: "t \<in> set (settled S)"
    then have "fst t < length A" by (intro lt) simp
    then show "A ! fst t \<in> set A" by simp
  qed
  show "set (remaining S) \<subseteq> set A" unfolding rm by (rule set_drop_subset)
qed

text \<open>
  Claim C5. A URL that is in the log read at the start of the batch is not in the list of
  URLs handed to the pool, and in no state of the run is it the item of a task in flight,
  of a settled task or of a task still to start. With \<open>A\<close> in the log and the list
  \<open>A\<close>, \<open>B\<close>, the tasks are those of \<open>B\<close> alone.
\<close>

theorem logged_urls_not_attempted:
  assumes "u \<in> readDownloadedLog w" and "downloadFromList E a fileContent w steps = Some S"
  shows "u \<notin> set (list_urls w fileContent)
     \<and> (\<forall>t\<in>set (inflight S). snd t \<noteq> u)
     \<and> (\<forall>t\<in>set (settled S). list_urls w fileContent ! fst t \<noteq> u)
     \<and> u \<notin> set (remaining S)
     \<and> list_urls logged_A file_A_B = [''B'']"
proof -
  note n = list_urls_not_logged [OF assms(1), of fileContent]
  note i = pool_items_of_array [OF list_urls_run_inv [OF assms(2)]]
  have "list_urls logged_A file_A_B = [''B'']"
    by (simp add: list_urls_def logged_A_def file_A_B_def readDownloadedLog_def trim_def
          is_space_def)
  with n i show ?thesis by blast
qed


text \<open>The log holds \<open>A\<close>, the list \<open>A\<close> and \<open>B\<close>: the task started is that of \<open>B\<close>.\<close>

theorem logged_urls_not_attempted_witness:
  "''A'' \<in> readDownloadedLog logged_A
   \<and> downloadFromList demo_env demo_argv file_A_B logged_A [Iterate] = Some only_B_started
   \<and> ''A'' \<notin> set (list_urls logged_A file_A_B)
   \<and> list_urls logged_A file_A_B = [''B'']
   \<and> inflight only_B_started = [(0, ''B'')]"
proof -
  have h1: "''A'' \<in> readDownloadedLog logged_A"
    by (simp add: readDownloadedLog_def logged_A_def)
  have u: "list_urls logged_A file_A_B = [''B'']"
    by (simp add: list_urls_def logged_A_def file_A_B_def readDownloadedLog_def trim_def
          is_space_def)
  have h2: "downloadFromList demo_env demo_argv file_A_B logged_A [Iterate] = Some only_B_started"
    unfolding downloadFromList_def asyncPool_def Let_def u
    by (simp add: concurrencyLimit_def pool_init_def only_B_started_def)
  from logged_urls_not_attempted [OF h1 h2] have "''A'' \<notin> set (list_urls logged_A file_A_B)"
    by blast
  with h1 h2 u show ?thesis by (simp add: only_B_started_def)
qed

text \<open>The outcome of a task and of a batch does not depend on \<^verbatim>\<open>--timeout\<close>.\<close>

lemma downloadTask_ignores_timeout:
  "downloadTask E (a\<lparr>argv_timeout := t\<rparr>) urls dir url w = downloadTask E a urls dir url w"
proof -
  have tp: "task_output_path E (a\<lparr>argv_timeout := t\<rparr>) urls dir url i
      = task_output_path E a urls dir url i" for i
    by (simp add: task_output_path_def)
  show ?thesis unfolding downloadTask_def tp by (rule refl)
qed

lemma downloadFromList_ignores_timeout:
  "downloadFromList E (a\<lparr>argv_timeout := t\<rparr>) fileContent w steps
     = downloadFromList E a fileContent w steps"
proof -
  have "list_task E (a\<lparr>argv_timeout := t\<rparr>) urls = list_task E a urls" for urls
    by (intro ext) (simp add: list_task_def downloadTask_ignores_timeout outputDirectory_def)
  then show ?thesis by (simp add: downloadFromList_def asyncPool_def)
qed

text \<open>
  Claim C4 fails on the code: \<^verbatim>\<open>argv.timeout\<close> is checked and never read again. With
  \<^verbatim>\<open>--list urls.txt --timeout 1000\<close>, which passes the check, and a list of one URL whose
  download succeeds, the task waits 5000 ms after its success, not 1000 ms.
\<close>

theorem timeout_option_ignored:
  "check demo_argv = Inr () \<and> argv_timeout demo_argv = Some 1000
   \<and> downloadFromList demo_env demo_argv ''s/v2'' empty_world [Iterate, Settle 0, Return]
       = Some single_final
   \<and> trace (shared single_final) = [Attempt, Sleep 5000]"
proof -
  have c: "check demo_argv = Inr ()"
    by (simp add: check_def demo_argv_def given_def)
  have u: "list_urls empty_world ''s/v2'' = [''s/v2'']"
    by (simp add: list_urls_def empty_world_def readDownloadedLog_def trim_def is_space_def)
  have "downloadFromList demo_env demo_argv ''s/v2'' empty_world [Iterate, Settle 0, Return]
       = Some single_final"
    unfolding downloadFromList_def asyncPool_def Let_def u
    by (simp add: concurrencyLimit_def pool_init_def single_final_def empty_world_def
          demo_task_ok log_text_def log_lines_def Let_def)
  with c show ?thesis by (simp add: demo_env_simps single_final_def)
qed

lemma count_run:
  "asyncPool 2 [''a'', ''b'', ''c''] count_task 0 [Iterate, Iterate, Settle 1, Resume, Iterate]
     = Some count_state"
  by (simp add: asyncPool_def count_task_def count_state_def pool_init_def splice1_def Let_def)

lemma two_started_run:
  "downloadFromList demo_env demo_argv (''s/v1'' @ [CHR 0x0A] @ ''s/v2'') empty_world
     [Iterate, Iterate] = Some two_started"
proof -
  have u: "list_urls empty_world (''s/v1'' @ [CHR 0x0A] @ ''s/v2'') = [''s/v1'', ''s/v2'']"
    by (simp add: list_urls_def empty_world_def readDownloadedLog_def trim_def is_space_def)
  show ?thesis
    unfolding downloadFromList_def asyncPool_def Let_def u
    by (simp add: concurrencyLimit_def pool_init_def two_started_def)
qed

text \<open>Three items through a pool of two, and a batch of two URLs.\<close>

theorem inflight_never_exceeds_limit_witness:
  "0 < (2::int)
   \<and> asyncPool 2 [''a'', ''b'', ''c''] count_task 0 [Iterate, Iterate, Settle 1, Resume, Iterate]
        = Some count_state
   \<and> int (length (inflight count_state)) \<le> 2
   \<and> downloadFromList demo_env demo_argv (''s/v1'' @ [CHR 0x0A] @ ''s/v2'') empty_world
        [Iterate, Iterate] = Some two_started
   \<and> length (inflight two_started) \<le> 5
   \<and> length (inflight count_state) = 2 \<and> length (inflight two_started) = 2"
proof -
  from inflight_never_exceeds_limit
         [of 2 "[''a'', ''b'', ''c'']" count_task 0 "[Iterate, Iterate, Settle 1, Resume, Iterate]"
             count_state demo_env demo_argv "''s/v1'' @ [CHR 0x0A] @ ''s/v2''" empty_world
             "[Iterate, Iterate]" two_started]
       count_run two_started_run
  have "int (length (inflight count_state)) \<le> 2" and "length (inflight two_started) \<le> 5"
    by simp_all
  with count_run two_started_run show ?thesis
    by (simp add: count_state_def two_started_def)
qed

text \<open>A limit below 1 behaves as the limit 1: one task at a time.\<close>

lemma inflight_at_most_one_for_low_limit:
  "asyncPool poolLimit array iteratorFn w steps = Some S
   \<Longrightarrow> int (length (inflight S)) \<le> max poolLimit 1"
  unfolding asyncPool_def
  by (rule pool_inv_inflight_bound(1) [OF pool_inv_run [OF pool_inv_init]])

lemma zero_limit_run:
  "asyncPool 0 [''a''] count_task 0 [Iterate] = Some zero_limit_state
   \<and> length (inflight zero_limit_state) = 1"
  by (simp add: asyncPool_def count_task_def zero_limit_state_def pool_init_def)

text \<open>Five tasks through a pool of two, the first and the third failing: all five settle
  and the log holds the three URLs that succeeded.\<close>

lemma pool_of_two_example:
  "asyncPool 2 demo_urls (list_task demo_env demo_argv demo_urls) empty_world demo_steps
     = Some demo_final
   \<and> finished demo_final \<and> no_reject demo_final
   \<and> log_text (shared demo_final) = log_lines [''s/v2'', ''s/v5'', ''s/v4'']"
  using demo_run batch_pool(1) [OF demo_run]
  by (simp add: asyncPool_def demo_final_def finished_def log_text_def)

end
